theory Spec2Isabelle
  imports Main
begin

section \<open>The board\<close>

text \<open>
  The source passes the board as \<^verbatim>\<open>int **BOARD\<close>, nine rows of nine \<^verbatim>\<open>int\<close>
  cells, and mutates it in place. Here a board is a list of rows; every function that
  writes returns the board it leaves behind. Row and column indices are \<^verbatim>\<open>int\<close> in
  the source and \<^typ>\<open>int\<close> here; no arithmetic of the program leaves the range
  \<open>-1 .. INT_MAX\<close>, so the integers are unbounded.
\<close>

type_synonym board = "int list list"

definition cell :: "board \<Rightarrow> int \<Rightarrow> int \<Rightarrow> int" where
  "cell B r c = B ! nat r ! nat c"

definition put :: "board \<Rightarrow> int \<Rightarrow> int \<Rightarrow> int \<Rightarrow> board" where
  "put B r c v = B[nat r := (B ! nat r)[nat c := v]]"

text \<open>
  The shape the header promises (``dynamically allocated 9x9 Sudoku boards''). A read
  or write outside it is undefined behaviour in the source; every theorem below assumes
  the shape and keeps its indices inside it.
\<close>

definition wf_board :: "board \<Rightarrow> bool" where
  "wf_board B \<longleftrightarrow> length B = 9 \<and> list_all (\<lambda>row. length row = 9) B"

definition INT_MAX :: int where
  "INT_MAX = 2147483647"

section \<open>isValid\<close>

text \<open>
  The first loop of \<^verbatim>\<open>isValid\<close>: \<^verbatim>\<open>for (i = 0; i < 9; i++)\<close>, leaving with
  \<^verbatim>\<open>false\<close> at the first collision in row \<open>r\<close> or column \<open>c\<close>. The function
  returns whether the loop ran to its end.
\<close>

function isValid_rowcol :: "board \<Rightarrow> int \<Rightarrow> int \<Rightarrow> int \<Rightarrow> int \<Rightarrow> bool" where
  "isValid_rowcol B r c k i =
     (if i < 9
      then (if k = cell B r i \<or> k = cell B i c then False
            else isValid_rowcol B r c k (i + 1))
      else True)"
  by pat_completeness auto
termination
  by (relation "measure (\<lambda>(B, r, c, k, i). nat (9 - i))") auto

text \<open>The inner loop over the columns \<open>j\<close> of one row \<open>i\<close> of the 3x3 block.\<close>

function isValid_blockrow :: "board \<Rightarrow> int \<Rightarrow> int \<Rightarrow> int \<Rightarrow> int \<Rightarrow> bool" where
  "isValid_blockrow B k i startCol j =
     (if j < startCol + 3
      then (if k = cell B i j then False
            else isValid_blockrow B k i startCol (j + 1))
      else True)"
  by pat_completeness auto
termination
  by (relation "measure (\<lambda>(B, k, i, startCol, j). nat (startCol + 3 - j))") auto

text \<open>The outer loop over the rows \<open>i\<close> of the 3x3 block.\<close>

function isValid_block :: "board \<Rightarrow> int \<Rightarrow> int \<Rightarrow> int \<Rightarrow> int \<Rightarrow> bool" where
  "isValid_block B k startRow startCol i =
     (if i < startRow + 3
      then (if isValid_blockrow B k i startCol startCol
            then isValid_block B k startRow startCol (i + 1)
            else False)
      else True)"
  by pat_completeness auto
termination
  by (relation "measure (\<lambda>(B, k, startRow, startCol, i). nat (startRow + 3 - i))") auto

text \<open>
  \<^verbatim>\<open>r / 3\<close> truncates in C++; on the indices \<open>0 .. 8\<close> it is \<open>r div 3\<close>.
  The source function contains no assignment to the board, so the model returns the
  verdict only.
\<close>

definition isValid :: "board \<Rightarrow> int \<Rightarrow> int \<Rightarrow> int \<Rightarrow> bool" where
  "isValid B r c k =
     (if isValid_rowcol B r c k 0
      then (let startRow = 3 * (r div 3); startCol = 3 * (c div 3)
            in isValid_block B k startRow startCol startRow)
      else False)"

section \<open>solveBoard\<close>

text \<open>
  The solvers recurse, so the model carries the number of nested invocations the
  call stack may still hold: \<open>solveBoard n\<close> is an invocation with room for \<open>n\<close>
  frames, its own included, and \<open>None\<close> says that the room ran out. The result
  \<open>Some (b, B')\<close> is the returned boolean and the board as the call leaves it.

  \<open>solveBoard_try n B r c k\<close> is the loop \<^verbatim>\<open>for (k = 1; k <= 9; k++)\<close> of an
  invocation, from candidate \<open>k\<close> on; the recursive calls it makes have room \<open>n\<close>.
\<close>

function solveBoard :: "nat \<Rightarrow> board \<Rightarrow> int \<Rightarrow> int \<Rightarrow> (bool \<times> board) option"
  and solveBoard_try :: "nat \<Rightarrow> board \<Rightarrow> int \<Rightarrow> int \<Rightarrow> int \<Rightarrow> (bool \<times> board) option"
where
  "solveBoard 0 B r c = None"
| "solveBoard (Suc n) B r c =
     (if r = 9 then Some (True, B)
      else if c = 9 then solveBoard n B (r + 1) 0
      else if cell B r c \<noteq> 0 then solveBoard n B r (c + 1)
      else solveBoard_try n B r c 1)"
| "solveBoard_try n B r c k =
     (if k \<le> 9
      then (if isValid B r c k
            then (case solveBoard n (put B r c k) r (c + 1) of
                    None \<Rightarrow> None
                  | Some (True, B') \<Rightarrow> Some (True, B')
                  | Some (False, B') \<Rightarrow> solveBoard_try n (put B' r c 0) r c (k + 1))
            else solveBoard_try n B r c (k + 1))
      else Some (False, B))"
  by pat_completeness auto
termination
  by (relation "inv_image (less_than <*lex*> less_than)
        (\<lambda>x. case x of Inl (n, B, r, c) \<Rightarrow> (2 * n, 0)
                      | Inr (n, B, r, c, k) \<Rightarrow> (2 * n + 1, nat (10 - k)))") auto

section \<open>findNextCell\<close>

text \<open>
  The loop \<^verbatim>\<open>for (k = 0; k < 9; k++)\<close> that counts the options of one cell,
  from candidate \<open>k\<close> on, with the count so far.
\<close>

function countOptions :: "board \<Rightarrow> int \<Rightarrow> int \<Rightarrow> int \<Rightarrow> int \<Rightarrow> int" where
  "countOptions B r c k options =
     (if k < 9
      then countOptions B r c (k + 1) (if isValid B r c k then options + 1 else options)
      else options)"
  by pat_completeness auto
termination
  by (relation "measure (\<lambda>(B, r, c, k, options). nat (9 - k))") auto

text \<open>
  The two nested loops over \<open>r\<close> and \<open>c\<close>, from the cell \<open>(r, c)\<close> on, with the
  three local variables. The last line is the code after the loops.
\<close>

function findNextCell_scan ::
  "board \<Rightarrow> int \<Rightarrow> int \<Rightarrow> int \<Rightarrow> int \<Rightarrow> int \<Rightarrow> int \<times> int \<times> int" where
  "findNextCell_scan B r c minOptions bestRow bestCol =
     (if r < 9
      then (if c < 9
            then (if cell B r c = 0
                  then (let options = countOptions B r c 0 0
                        in if options < minOptions
                           then (if options = 1 then (r, c, options)
                                 else findNextCell_scan B r (c + 1) options r c)
                           else findNextCell_scan B r (c + 1) minOptions bestRow bestCol)
                  else findNextCell_scan B r (c + 1) minOptions bestRow bestCol)
            else findNextCell_scan B (r + 1) 0 minOptions bestRow bestCol)
      else (if bestRow = - 1 \<and> bestCol = - 1 then (- 1, - 1, 0)
            else (bestRow, bestCol, minOptions)))"
  by pat_completeness auto
termination
  by (relation "inv_image (less_than <*lex*> less_than)
        (\<lambda>(B, r, c, minOptions, bestRow, bestCol). (nat (9 - r), nat (9 - c)))") auto

definition findNextCell :: "board \<Rightarrow> int \<times> int \<times> int" where
  "findNextCell B = findNextCell_scan B 0 0 INT_MAX (- 1) (- 1)"

section \<open>solveBoardEfficient and solve\<close>

function solveBoardEfficient :: "nat \<Rightarrow> board \<Rightarrow> (bool \<times> board) option"
  and solveBoardEfficient_try :: "nat \<Rightarrow> board \<Rightarrow> int \<Rightarrow> int \<Rightarrow> int \<Rightarrow> (bool \<times> board) option"
where
  "solveBoardEfficient 0 B = None"
| "solveBoardEfficient (Suc n) B =
     (case findNextCell B of (row, col, options) \<Rightarrow>
        if row = - 1 \<and> col = - 1 then Some (True, B)
        else solveBoardEfficient_try n B row col 1)"
| "solveBoardEfficient_try n B row col k =
     (if k \<le> 9
      then (if isValid B row col k
            then (case solveBoardEfficient n (put B row col k) of
                    None \<Rightarrow> None
                  | Some (True, B') \<Rightarrow> Some (True, B')
                  | Some (False, B') \<Rightarrow>
                      solveBoardEfficient_try n (put B' row col 0) row col (k + 1))
            else solveBoardEfficient_try n B row col (k + 1))
      else Some (False, B))"
  by pat_completeness auto
termination
  by (relation "inv_image (less_than <*lex*> less_than)
        (\<lambda>x. case x of Inl (n, B) \<Rightarrow> (2 * n, 0)
                      | Inr (n, B, row, col, k) \<Rightarrow> (2 * n + 1, nat (10 - k)))") auto

definition solve :: "nat \<Rightarrow> board \<Rightarrow> bool \<Rightarrow> (bool \<times> board) option" where
  "solve n board efficient =
     (if efficient then solveBoardEfficient n board else solveBoard n board 0 0)"

section \<open>What the specification speaks about\<close>

text \<open>Digit \<open>k\<close> occurs in row \<open>r\<close>, in column \<open>c\<close>, in the 3x3 block of \<open>(r, c)\<close>.\<close>

definition occurs_row :: "board \<Rightarrow> int \<Rightarrow> int \<Rightarrow> bool" where
  "occurs_row B r k \<longleftrightarrow> (\<exists>j\<in>{0..8}. cell B r j = k)"

definition occurs_col :: "board \<Rightarrow> int \<Rightarrow> int \<Rightarrow> bool" where
  "occurs_col B c k \<longleftrightarrow> (\<exists>i\<in>{0..8}. cell B i c = k)"

definition occurs_block :: "board \<Rightarrow> int \<Rightarrow> int \<Rightarrow> int \<Rightarrow> bool" where
  "occurs_block B r c k \<longleftrightarrow>
     (\<exists>i\<in>{3 * (r div 3)..3 * (r div 3) + 2}. \<exists>j\<in>{3 * (c div 3)..3 * (c div 3) + 2}. cell B i j = k)"

definition cells_in_range :: "board \<Rightarrow> bool" where
  "cells_in_range B \<longleftrightarrow> (\<forall>r\<in>{0..8}. \<forall>c\<in>{0..8}. cell B r c \<in> {0..9})"

section \<open>Notions for the cell selector\<close>

text \<open>
  An empty cell of the board; the row-major order of the scan; the option count that the
  counting loop of \<open>findNextCell\<close> computes for a cell; what the scan returns; and the
  invariant of the scan when it reaches \<open>(r, c)\<close> with its three local variables.
\<close>

definition empty_at :: "board \<Rightarrow> int \<Rightarrow> int \<Rightarrow> bool" where
  "empty_at B r c \<longleftrightarrow> 0 \<le> r \<and> r < 9 \<and> 0 \<le> c \<and> c < 9 \<and> cell B r c = 0"

definition before :: "int \<Rightarrow> int \<Rightarrow> int \<Rightarrow> int \<Rightarrow> bool" where
  "before r' c' r c \<longleftrightarrow> r' < r \<or> (r' = r \<and> c' < c)"

definition cnt :: "board \<Rightarrow> int \<Rightarrow> int \<Rightarrow> int" where
  "cnt B r c = countOptions B r c 0 0"

definition scan_ok :: "board \<Rightarrow> int \<times> int \<times> int \<Rightarrow> bool" where
  "scan_ok B res \<longleftrightarrow>
     (case res of (r, c, n) \<Rightarrow>
        (r = - 1 \<and> c = - 1 \<and> n = 0 \<and> (\<forall>r' c'. \<not> empty_at B r' c'))
        \<or> (empty_at B r c \<and> n = cnt B r c
            \<and> (n = 1 \<or> (\<forall>r' c'. empty_at B r' c' \<longrightarrow> n \<le> cnt B r' c'))))"

definition scan_inv :: "board \<Rightarrow> int \<Rightarrow> int \<Rightarrow> int \<Rightarrow> int \<Rightarrow> int \<Rightarrow> bool" where
  "scan_inv B r c m br bc \<longleftrightarrow>
     (br = - 1 \<and> bc = - 1 \<and> m = INT_MAX
        \<and> (\<forall>r' c'. empty_at B r' c' \<longrightarrow> \<not> before r' c' r c))
     \<or> (empty_at B br bc \<and> m = cnt B br bc
        \<and> (\<forall>r' c'. empty_at B r' c' \<and> before r' c' r c \<longrightarrow> m \<le> cnt B r' c'))"

section \<open>Boards used as concrete inputs\<close>

text \<open>A solved board, and the same board with its cell \<open>(0, 0)\<close> emptied.\<close>

definition board_solved :: board where
  "board_solved =
    [[7, 3, 4, 6, 5, 8, 9, 1, 2],
     [6, 5, 2, 1, 9, 7, 3, 4, 8],
     [1, 9, 8, 3, 4, 2, 7, 6, 5],
     [8, 7, 9, 5, 6, 1, 4, 2, 3],
     [4, 2, 6, 8, 7, 3, 5, 9, 1],
     [5, 1, 3, 9, 2, 4, 8, 7, 6],
     [9, 6, 1, 7, 3, 5, 2, 8, 4],
     [2, 8, 5, 4, 1, 9, 6, 3, 7],
     [3, 4, 7, 2, 8, 6, 1, 5, 9]]"

definition board_first_empty :: board where
  "board_first_empty =
    [[0, 3, 4, 6, 5, 8, 9, 1, 2],
     [6, 5, 2, 1, 9, 7, 3, 4, 8],
     [1, 9, 8, 3, 4, 2, 7, 6, 5],
     [8, 7, 9, 5, 6, 1, 4, 2, 3],
     [4, 2, 6, 8, 7, 3, 5, 9, 1],
     [5, 1, 3, 9, 2, 4, 8, 7, 6],
     [9, 6, 1, 7, 3, 5, 2, 8, 4],
     [2, 8, 5, 4, 1, 9, 6, 3, 7],
     [3, 4, 7, 2, 8, 6, 1, 5, 9]]"

section \<open>Legal digits\<close>

text \<open>The digits \<open>1 .. 9\<close> that \<open>isValid\<close> accepts at a cell, in ascending order.\<close>

definition legal_digits :: "board \<Rightarrow> int \<Rightarrow> int \<Rightarrow> int list" where
  "legal_digits B r c = filter (isValid B r c) [1..9]"

section \<open>More concrete boards\<close>

text \<open>
  The solved board with its last cell emptied (the only digit that fits is 9), and a
  board with two empty cells: nothing fits at \<open>(0, 0)\<close>, since the 7 of its row has
  moved to \<open>(0, 1)\<close>, and only 5 fits at \<open>(8, 7)\<close>.
\<close>

definition board_last_empty :: board where
  "board_last_empty =
    [[7, 3, 4, 6, 5, 8, 9, 1, 2],
     [6, 5, 2, 1, 9, 7, 3, 4, 8],
     [1, 9, 8, 3, 4, 2, 7, 6, 5],
     [8, 7, 9, 5, 6, 1, 4, 2, 3],
     [4, 2, 6, 8, 7, 3, 5, 9, 1],
     [5, 1, 3, 9, 2, 4, 8, 7, 6],
     [9, 6, 1, 7, 3, 5, 2, 8, 4],
     [2, 8, 5, 4, 1, 9, 6, 3, 7],
     [3, 4, 7, 2, 8, 6, 1, 5, 0]]"


section \<open>Notions for the solvers\<close>

text \<open>
  Two different cells that share a row, a column or a 3x3 block; a board on which no
  filled cell repeats its digit in such a cell; and a board \<open>B'\<close> that continues
  \<open>B\<close>: same shape, every filled cell of \<open>B\<close> kept, digits and the absence of
  repetitions carried over.
\<close>

definition peers :: "int \<Rightarrow> int \<Rightarrow> int \<Rightarrow> int \<Rightarrow> bool" where
  "peers r c r' c' \<longleftrightarrow>
     (r \<noteq> r' \<or> c \<noteq> c') \<and> (r = r' \<or> c = c' \<or> (r div 3 = r' div 3 \<and> c div 3 = c' div 3))"

definition noclash :: "board \<Rightarrow> bool" where
  "noclash B \<longleftrightarrow>
     (\<forall>r\<in>{0..8}. \<forall>c\<in>{0..8}. \<forall>r'\<in>{0..8}. \<forall>c'\<in>{0..8}.
        peers r c r' c' \<and> cell B r c \<noteq> 0 \<longrightarrow> cell B r c \<noteq> cell B r' c')"

definition preserved :: "board \<Rightarrow> board \<Rightarrow> bool" where
  "preserved B B' \<longleftrightarrow>
     (\<forall>r\<in>{0..8}. \<forall>c\<in>{0..8}. cell B r c \<noteq> 0 \<longrightarrow> cell B' r c = cell B r c)"

definition ext :: "board \<Rightarrow> board \<Rightarrow> bool" where
  "ext B B' \<longleftrightarrow>
     wf_board B' \<and> preserved B B'
     \<and> (cells_in_range B \<longrightarrow> cells_in_range B') \<and> (noclash B \<longrightarrow> noclash B')"

text \<open>
  Every cell from \<open>(r, c)\<close> on, in row-major order, is filled. What a call of a
  solver leaves behind: after true, a continuation of its input that is filled (from the
  cursor on, for the row-major solver); after false, its input.
\<close>

definition filled_from :: "board \<Rightarrow> int \<Rightarrow> int \<Rightarrow> bool" where
  "filled_from B r c \<longleftrightarrow> (\<forall>r'\<in>{0..8}. \<forall>c'\<in>{0..8}. \<not> before r' c' r c \<longrightarrow> cell B r' c' \<noteq> 0)"

definition sb_post :: "board \<Rightarrow> int \<Rightarrow> int \<Rightarrow> bool \<Rightarrow> board \<Rightarrow> bool" where
  "sb_post B r c res B' \<longleftrightarrow> (if res then ext B B' \<and> filled_from B' r c else B' = B)"

definition se_post :: "board \<Rightarrow> bool \<Rightarrow> board \<Rightarrow> bool" where
  "se_post B res B' \<longleftrightarrow>
     (if res then ext B B' \<and> (\<forall>r\<in>{0..8}. \<forall>c\<in>{0..8}. cell B' r c \<noteq> 0) else B' = B)"

section \<open>Solved boards\<close>

text \<open>
  The rows, columns and 3x3 blocks of a board as lists of cell values, a list that holds
  each digit \<open>1 .. 9\<close> exactly once, and a list whose non-zero entries do not repeat.
\<close>

definition row_of :: "board \<Rightarrow> int \<Rightarrow> int list" where
  "row_of B r = map (\<lambda>c. cell B r c) [0..8]"

definition col_of :: "board \<Rightarrow> int \<Rightarrow> int list" where
  "col_of B c = map (\<lambda>r. cell B r c) [0..8]"

definition block_of :: "board \<Rightarrow> int \<Rightarrow> int \<Rightarrow> int list" where
  "block_of B br bc =
     concat (map (\<lambda>i. map (\<lambda>j. cell B (3 * br + i) (3 * bc + j)) [0..2]) [0..2])"

definition each_digit_once :: "int list \<Rightarrow> bool" where
  "each_digit_once xs \<longleftrightarrow> (\<forall>d\<in>{1..9}. count_list xs d = 1)"

definition no_repeats :: "int list \<Rightarrow> bool" where
  "no_repeats xs \<longleftrightarrow> distinct (filter (\<lambda>v. v \<noteq> 0) xs)"

definition solved :: "board \<Rightarrow> bool" where
  "solved B \<longleftrightarrow>
     (\<forall>r\<in>{0..8}. each_digit_once (row_of B r))
     \<and> (\<forall>c\<in>{0..8}. each_digit_once (col_of B c))
     \<and> (\<forall>br\<in>{0..2}. \<forall>bc\<in>{0..2}. each_digit_once (block_of B br bc))"

definition conflict_free :: "board \<Rightarrow> bool" where
  "conflict_free B \<longleftrightarrow>
     (\<forall>r\<in>{0..8}. no_repeats (row_of B r))
     \<and> (\<forall>c\<in>{0..8}. no_repeats (col_of B c))
     \<and> (\<forall>br\<in>{0..2}. \<forall>bc\<in>{0..2}. no_repeats (block_of B br bc))"

text \<open>The coordinates of the cells of a row, a column and a block.\<close>

definition row_cells :: "int \<Rightarrow> (int \<times> int) list" where
  "row_cells r = map (\<lambda>c. (r, c)) [0..8]"

definition col_cells :: "int \<Rightarrow> (int \<times> int) list" where
  "col_cells c = map (\<lambda>r. (r, c)) [0..8]"

definition block_cells :: "int \<Rightarrow> int \<Rightarrow> (int \<times> int) list" where
  "block_cells br bc = concat (map (\<lambda>i. map (\<lambda>j. (3 * br + i, 3 * bc + j)) [0..2]) [0..2])"

definition at :: "board \<Rightarrow> int \<times> int \<Rightarrow> int" where
  "at B p = cell B (fst p) (snd p)"

text \<open>Every cell holds a digit \<open>1 .. 9\<close>.\<close>

definition full_board :: "board \<Rightarrow> bool" where
  "full_board B \<longleftrightarrow> (\<forall>r\<in>{0..8}. \<forall>c\<in>{0..8}. cell B r c \<in> {1..9})"

text \<open>
  A valid completion of \<open>B\<close>: a solved 9x9 board that keeps every filled cell of \<open>B\<close>.
\<close>

definition completion :: "board \<Rightarrow> board \<Rightarrow> bool" where
  "completion B S \<longleftrightarrow> wf_board S \<and> solved S \<and> preserved B S"

text \<open>
  The number of nested invocations of \<open>solveBoard\<close> from the cursor \<open>(r, c)\<close> to the
  end of the board: one for each cell and each end of a row still ahead, and the last
  one at row 9.
\<close>

definition frames :: "int \<Rightarrow> int \<Rightarrow> nat" where
  "frames r c = nat (10 * (9 - r) - c) + 1"

text \<open>The number of empty cells of a board.\<close>

definition empties :: "board \<Rightarrow> nat" where
  "empties B = card {(r, c). empty_at B r c}"

text \<open>
  The solved board with a second 3 written over the 7 of cell \<open>(0, 0)\<close>; and a board
  on which only 7 fits at \<open>(0, 0)\<close> and then nothing fits at \<open>(8, 8)\<close>.
\<close>

definition board_clash :: board where
  "board_clash =
    [[3, 3, 4, 6, 5, 8, 9, 1, 2],
     [6, 5, 2, 1, 9, 7, 3, 4, 8],
     [1, 9, 8, 3, 4, 2, 7, 6, 5],
     [8, 7, 9, 5, 6, 1, 4, 2, 3],
     [4, 2, 6, 8, 7, 3, 5, 9, 1],
     [5, 1, 3, 9, 2, 4, 8, 7, 6],
     [9, 6, 1, 7, 3, 5, 2, 8, 4],
     [2, 8, 5, 4, 1, 9, 6, 3, 7],
     [3, 4, 7, 2, 8, 6, 1, 5, 9]]"

definition board_backtrack :: board where
  "board_backtrack =
    [[0, 3, 4, 6, 5, 8, 9, 1, 2],
     [6, 5, 2, 1, 9, 7, 3, 4, 8],
     [1, 9, 8, 3, 4, 2, 7, 6, 5],
     [8, 7, 9, 5, 6, 1, 4, 2, 3],
     [4, 2, 6, 8, 7, 3, 5, 9, 1],
     [5, 1, 3, 9, 2, 4, 8, 7, 6],
     [9, 6, 1, 7, 3, 5, 2, 8, 4],
     [2, 8, 5, 4, 1, 9, 6, 3, 7],
     [3, 4, 7, 2, 8, 6, 1, 9, 0]]"

section \<open>Kinds of boards\<close>

text \<open>Boards without an empty cell, and with exactly one empty cell.\<close>

definition no_empty_cell :: "board \<Rightarrow> bool" where
  "no_empty_cell B \<longleftrightarrow> (\<forall>r\<in>{0..8}. \<forall>c\<in>{0..8}. cell B r c \<noteq> 0)"

definition only_empty_cell :: "board \<Rightarrow> int \<Rightarrow> int \<Rightarrow> bool" where
  "only_empty_cell B r0 c0 \<longleftrightarrow>
     r0 \<in> {0..8} \<and> c0 \<in> {0..8}
     \<and> (\<forall>r\<in>{0..8}. \<forall>c\<in>{0..8}. cell B r c = 0 \<longleftrightarrow> r = r0 \<and> c = c0)"

text \<open>
  \<open>S\<close> is the one valid completion of \<open>B\<close>; and the digit \<open>d\<close> is the only one of
  \<open>1 .. 9\<close> that occurs neither in the row, nor in the column, nor in the block of
  \<open>(r, c)\<close>.
\<close>

definition only_completion :: "board \<Rightarrow> board \<Rightarrow> bool" where
  "only_completion B S \<longleftrightarrow> completion B S \<and> (\<forall>S'. completion B S' \<longrightarrow> S' = S)"

definition forced_digit :: "board \<Rightarrow> int \<Rightarrow> int \<Rightarrow> int \<Rightarrow> bool" where
  "forced_digit B r c d \<longleftrightarrow>
     (\<forall>k\<in>{1..9}. (occurs_row B r k \<or> occurs_col B c k \<or> occurs_block B r c k) \<longleftrightarrow> k \<noteq> d)"

section \<open>Notions for the early return of the scan\<close>








section \<open>Reading and writing cells\<close>

declare isValid_rowcol.simps [simp del] isValid_blockrow.simps [simp del]
  isValid_block.simps [simp del] countOptions.simps [simp del]
  findNextCell_scan.simps [simp del]

lemma wf_board_length: "wf_board B \<Longrightarrow> length B = 9"
  by (simp add: wf_board_def)

lemma wf_board_row: "wf_board B \<Longrightarrow> 0 \<le> r \<Longrightarrow> r < 9 \<Longrightarrow> length (B ! nat r) = 9"
  by (simp add: wf_board_def list_all_length)

lemma wf_put [simp]: "wf_board (put B r c v) = wf_board B"
proof -
  have "map length (B[nat r := (B ! nat r)[nat c := v]]) = map length B"
    by (cases "nat r < length B") (simp_all add: map_update list_update_same_conv list_update_beyond)
  moreover have "\<And>A. list_all (\<lambda>row. length row = 9) A = list_all (\<lambda>n. n = 9) (map length A)"
    by (simp add: list.pred_map comp_def)
  ultimately have "list_all (\<lambda>row. length row = 9) (B[nat r := (B ! nat r)[nat c := v]])
        = list_all (\<lambda>row. length row = 9) B"
    by metis
  then show ?thesis by (simp add: wf_board_def put_def)
qed

lemma cell_put:
  assumes "wf_board B" "0 \<le> r" "r < 9" "0 \<le> c" "c < 9" "0 \<le> r'" "0 \<le> c'"
  shows "cell (put B r c v) r' c' = (if r' = r \<and> c' = c then v else cell B r' c')"
proof -
  have lr: "nat r < length B" using assms by (simp add: wf_board_def)
  have lc: "nat c < length (B ! nat r)" using assms wf_board_row [of B r] by simp
  show ?thesis
  proof (cases "r' = r")
    case True
    then show ?thesis using lr lc assms
      by (auto simp: cell_def put_def nth_list_update)
  next
    case False
    then have "nat r' \<noteq> nat r" using assms by simp
    then show ?thesis using False by (simp add: cell_def put_def)
  qed
qed

lemma board_eqI:
  assumes "wf_board A" "wf_board B"
    and "\<And>r c. 0 \<le> r \<Longrightarrow> r < 9 \<Longrightarrow> 0 \<le> c \<Longrightarrow> c < 9 \<Longrightarrow> cell A r c = cell B r c"
  shows "A = B"
proof (rule nth_equalityI)
  show "length A = length B" using assms by (simp add: wf_board_def)
next
  fix i assume i: "i < length A"
  then have i9: "i < 9" using assms by (simp add: wf_board_def)
  have la: "length (A ! i) = 9" using wf_board_row [OF assms(1), of "int i"] i9 by simp
  have lb: "length (B ! i) = 9" using wf_board_row [OF assms(2), of "int i"] i9 by simp
  show "A ! i = B ! i"
  proof (rule nth_equalityI)
    show "length (A ! i) = length (B ! i)" using la lb by simp
  next
    fix j assume "j < length (A ! i)"
    then have "j < 9" using la by simp
    then show "A ! i ! j = B ! i ! j"
      using assms(3) [of "int i" "int j"] i9 by (simp add: cell_def)
  qed
qed

lemma put_restore:
  assumes "wf_board B" "0 \<le> r" "r < 9" "0 \<le> c" "c < 9" "cell B r c = v"
  shows "put (put B r c k) r c v = B"
  by (rule board_eqI) (use assms in \<open>auto simp: cell_put\<close>)

lemma isValid_rowcol_iff:
  "isValid_rowcol B r c k i \<longleftrightarrow> (\<forall>j. i \<le> j \<and> j < 9 \<longrightarrow> k \<noteq> cell B r j \<and> k \<noteq> cell B j c)"
proof (induction B r c k i rule: isValid_rowcol.induct)
  case (1 B r c k i)
  show ?case
  proof (cases "i < 9")
    case False
    then show ?thesis by (simp add: isValid_rowcol.simps [of B r c k i])
  next
    case True
    show ?thesis
    proof (cases "k = cell B r i \<or> k = cell B i c")
      case hit: True
      then have "isValid_rowcol B r c k i = False"
        using True by (simp add: isValid_rowcol.simps [of B r c k i])
      moreover have "\<not> (\<forall>j. i \<le> j \<and> j < 9 \<longrightarrow> k \<noteq> cell B r j \<and> k \<noteq> cell B j c)"
        using hit True by auto
      ultimately show ?thesis by simp
    next
      case miss: False
      have "isValid_rowcol B r c k i = isValid_rowcol B r c k (i + 1)"
        using True miss by (simp add: isValid_rowcol.simps [of B r c k i])
      also have "\<dots> \<longleftrightarrow> (\<forall>j. i + 1 \<le> j \<and> j < 9 \<longrightarrow> k \<noteq> cell B r j \<and> k \<noteq> cell B j c)"
        using "1.IH" True miss by simp
      also have "\<dots> \<longleftrightarrow> (\<forall>j. i \<le> j \<and> j < 9 \<longrightarrow> k \<noteq> cell B r j \<and> k \<noteq> cell B j c)"
      proof -
        have "\<And>j. i \<le> j \<longleftrightarrow> j = i \<or> i + 1 \<le> j" by auto
        then show ?thesis using miss by metis
      qed
      finally show ?thesis .
    qed
  qed
qed

lemma isValid_blockrow_iff:
  "isValid_blockrow B k i sc j \<longleftrightarrow> (\<forall>j'. j \<le> j' \<and> j' < sc + 3 \<longrightarrow> k \<noteq> cell B i j')"
proof (induction B k i sc j rule: isValid_blockrow.induct)
  case (1 B k i sc j)
  show ?case
  proof (cases "j < sc + 3")
    case False
    then show ?thesis by (simp add: isValid_blockrow.simps [of B k i sc j])
  next
    case True
    show ?thesis
    proof (cases "k = cell B i j")
      case hit: True
      then have "isValid_blockrow B k i sc j = False"
        using True by (subst isValid_blockrow.simps) simp
      moreover have "\<not> (\<forall>j'. j \<le> j' \<and> j' < sc + 3 \<longrightarrow> k \<noteq> cell B i j')"
        using hit True by auto
      ultimately show ?thesis by simp
    next
      case miss: False
      have "isValid_blockrow B k i sc j = isValid_blockrow B k i sc (j + 1)"
        using True miss by (simp add: isValid_blockrow.simps [of B k i sc j])
      also have "\<dots> \<longleftrightarrow> (\<forall>j'. j + 1 \<le> j' \<and> j' < sc + 3 \<longrightarrow> k \<noteq> cell B i j')"
        using "1.IH" True miss by simp
      also have "\<dots> \<longleftrightarrow> (\<forall>j'. j \<le> j' \<and> j' < sc + 3 \<longrightarrow> k \<noteq> cell B i j')"
      proof -
        have "\<And>j'. j \<le> j' \<longleftrightarrow> j' = j \<or> j + 1 \<le> j'" by auto
        then show ?thesis using miss by metis
      qed
      finally show ?thesis .
    qed
  qed
qed

lemma isValid_block_iff:
  "isValid_block B k sr sc i \<longleftrightarrow>
     (\<forall>i' j'. i \<le> i' \<and> i' < sr + 3 \<and> sc \<le> j' \<and> j' < sc + 3 \<longrightarrow> k \<noteq> cell B i' j')"
proof (induction B k sr sc i rule: isValid_block.induct)
  case (1 B k sr sc i)
  show ?case
  proof (cases "i < sr + 3")
    case False
    then show ?thesis by (simp add: isValid_block.simps [of B k sr sc i])
  next
    case True
    show ?thesis
    proof (cases "isValid_blockrow B k i sc sc")
      case hit: False
      then have "isValid_block B k sr sc i = False"
        using True by (simp add: isValid_block.simps [of B k sr sc i])
      moreover have "\<not> (\<forall>i' j'. i \<le> i' \<and> i' < sr + 3 \<and> sc \<le> j' \<and> j' < sc + 3 \<longrightarrow> k \<noteq> cell B i' j')"
      proof -
        from hit obtain j' where "sc \<le> j'" "j' < sc + 3" "k = cell B i j'"
          unfolding isValid_blockrow_iff by blast
        with True have "i \<le> i \<and> i < sr + 3 \<and> sc \<le> j' \<and> j' < sc + 3 \<and> k = cell B i j'"
          by simp
        then show ?thesis by blast
      qed
      ultimately show ?thesis by simp
    next
      case miss: True
      have "isValid_block B k sr sc i = isValid_block B k sr sc (i + 1)"
        using True miss by (simp add: isValid_block.simps [of B k sr sc i])
      also have "\<dots> \<longleftrightarrow> (\<forall>i' j'. i + 1 \<le> i' \<and> i' < sr + 3 \<and> sc \<le> j' \<and> j' < sc + 3 \<longrightarrow> k \<noteq> cell B i' j')"
        using "1.IH" True miss by simp
      also have "\<dots> \<longleftrightarrow> (\<forall>i' j'. i \<le> i' \<and> i' < sr + 3 \<and> sc \<le> j' \<and> j' < sc + 3 \<longrightarrow> k \<noteq> cell B i' j')"
      proof -
        have "\<And>i'. i \<le> i' \<longleftrightarrow> i' = i \<or> i + 1 \<le> i'" by auto
        then show ?thesis using miss unfolding isValid_blockrow_iff by metis
      qed
      finally show ?thesis .
    qed
  qed
qed

lemma isValid_iff:
  "isValid B r c k \<longleftrightarrow> \<not> (occurs_row B r k \<or> occurs_col B c k \<or> occurs_block B r c k)"
proof -
  have less: "\<And>j hi. j < hi + 1 \<longleftrightarrow> j \<le> (hi::int)" by auto
  have "isValid_rowcol B r c k 0 \<longleftrightarrow> (\<forall>j\<in>{0..8}. k \<noteq> cell B r j \<and> k \<noteq> cell B j c)"
    unfolding isValid_rowcol_iff Ball_def atLeastAtMost_iff using less [of _ 8] by simp
  then have rc: "isValid_rowcol B r c k 0 \<longleftrightarrow> \<not> (occurs_row B r k \<or> occurs_col B c k)"
    unfolding occurs_row_def occurs_col_def by blast
  have "isValid_block B k (3 * (r div 3)) (3 * (c div 3)) (3 * (r div 3)) \<longleftrightarrow>
        (\<forall>i\<in>{3 * (r div 3)..3 * (r div 3) + 2}. \<forall>j\<in>{3 * (c div 3)..3 * (c div 3) + 2}.
            k \<noteq> cell B i j)"
    unfolding isValid_block_iff Ball_def atLeastAtMost_iff
    using less [of _ "3 * (r div 3) + 2"] less [of _ "3 * (c div 3) + 2"]
    by (simp add: add.assoc) blast
  then have bl: "isValid_block B k (3 * (r div 3)) (3 * (c div 3)) (3 * (r div 3))
            \<longleftrightarrow> \<not> occurs_block B r c k"
    unfolding occurs_block_def by blast
  show ?thesis
    unfolding isValid_def Let_def using rc bl by simp
qed

section \<open>The validity checker\<close>

text \<open>
  Claim C3. On a 9x9 board, for a row and a column in \<open>0 .. 8\<close> and a digit in
  \<open>1 .. 9\<close>, \<open>isValid\<close> returns false exactly when the digit occurs in the row, in
  the column or in the 3x3 block with origin \<open>(3 * (r div 3), 3 * (c div 3))\<close>, and
  true otherwise. (That the board is left alone is the type of \<open>isValid\<close>: the source
  function has no assignment to it.)
\<close>

theorem isValid_false_iff_occurs:
  assumes "wf_board B" "r \<in> {0..8}" "c \<in> {0..8}" "k \<in> {1..9}"
  shows "(isValid B r c k = False \<longleftrightarrow>
            occurs_row B r k \<or> occurs_col B c k \<or> occurs_block B r c k)
         \<and> (\<not> (occurs_row B r k \<or> occurs_col B c k \<or> occurs_block B r c k)
              \<longrightarrow> isValid B r c k = True)"
  by (simp add: isValid_iff)

theorem isValid_false_iff_occurs_witness:
  "wf_board board_first_empty \<and> (0::int) \<in> {0..8} \<and> (3::int) \<in> {1..9} \<and> (7::int) \<in> {1..9}
   \<and> occurs_row board_first_empty 0 3 \<and> isValid board_first_empty 0 0 3 = False
   \<and> \<not> (occurs_row board_first_empty 0 7 \<or> occurs_col board_first_empty 0 7
           \<or> occurs_block board_first_empty 0 0 7)
   \<and> isValid board_first_empty 0 0 7 = True"
proof -
  have wf: "wf_board board_first_empty" by code_simp
  have i0: "(0::int) \<in> {0..8}" and k3: "(3::int) \<in> {1..9}" and k7: "(7::int) \<in> {1..9}"
    by simp_all
  have o3: "occurs_row board_first_empty 0 3" by code_simp
  have o7: "\<not> (occurs_row board_first_empty 0 7 \<or> occurs_col board_first_empty 0 7
           \<or> occurs_block board_first_empty 0 0 7)" by code_simp
  show ?thesis
    using wf i0 k3 k7 o3 o7
      isValid_false_iff_occurs [OF wf i0 i0 k3] isValid_false_iff_occurs [OF wf i0 i0 k7]
    by blast
qed

text \<open>
  Claim C6, as the specification has it: on a board with cells in \<open>0 .. 9\<close>, asking
  for digit 0 at an empty cell never collides. The code compares the digit with every
  cell of the row, the empty cell itself included, so the query collides with the cell
  it is asked about.
\<close>

theorem isValid_zero_counterexample:
  "wf_board board_first_empty \<and> cells_in_range board_first_empty
   \<and> cell board_first_empty 0 0 = 0 \<and> \<not> isValid board_first_empty 0 0 0"
  by code_simp

text \<open>
  Claim C6, amended: at every empty cell of a 9x9 board, \<open>isValid\<close> with digit 0
  returns false.
\<close>

theorem isValid_zero_at_empty:
  assumes "wf_board B" "r \<in> {0..8}" "c \<in> {0..8}" "cell B r c = 0"
  shows "isValid B r c 0 = False"
proof -
  have "occurs_row B r 0"
    unfolding occurs_row_def using assms by blast
  then show ?thesis by (simp add: isValid_iff)
qed

theorem isValid_zero_at_empty_witness:
  "wf_board board_first_empty \<and> (0::int) \<in> {0..8} \<and> cell board_first_empty 0 0 = 0
   \<and> isValid board_first_empty 0 0 0 = False"
proof -
  have wf: "wf_board board_first_empty" by code_simp
  have i0: "(0::int) \<in> {0..8}" by simp
  have e: "cell board_first_empty 0 0 = 0" by code_simp
  show ?thesis
    using wf i0 e isValid_zero_at_empty [OF wf i0 i0 e] by blast
qed

section \<open>The cell selector\<close>

lemma countOptions_card:
  "countOptions B r c k n = n + int (card {k'. k \<le> k' \<and> k' \<le> 8 \<and> isValid B r c k'})"
proof (induction B r c k n rule: countOptions.induct)
  case (1 B r c k n)
  let ?S = "\<lambda>k. {k'. k \<le> k' \<and> k' \<le> 8 \<and> isValid B r c k'}"
  show ?case
  proof (cases "k < 9")
    case False
    then have "?S k = {}" by auto
    then have "card (?S k) = 0" by (simp only: card.empty)
    moreover have "countOptions B r c k n = n"
      using False by (simp add: countOptions.simps [of B r c k n])
    ultimately show ?thesis by linarith
  next
    case True
    have fin: "finite (?S (k + 1))"
      by (rule finite_subset [of _ "{k + 1..8}"]) auto
    have notin: "k \<notin> ?S (k + 1)" by simp
    have step: "countOptions B r c k n
          = countOptions B r c (k + 1) (if isValid B r c k then n + 1 else n)"
      using True by (simp add: countOptions.simps [of B r c k n])
    show ?thesis
    proof (cases "isValid B r c k")
      case v: True
      have "?S k = insert k (?S (k + 1))" using True v by auto
      then have "card (?S k) = Suc (card (?S (k + 1)))"
        using fin notin by (simp del: mem_Collect_eq)
      then show ?thesis using step v "1.IH" [OF True] by simp
    next
      case v: False
      have "k' \<in> ?S k \<longleftrightarrow> k' \<in> ?S (k + 1)" for k'
        using v by (cases "k' = k") auto
      then have "?S k = ?S (k + 1)" by blast
      then show ?thesis using step v "1.IH" [OF True] by simp
    qed
  qed
qed

lemma cnt_bounds: "0 \<le> cnt B r c \<and> cnt B r c \<le> 9"
proof -
  have "card {k'. 0 \<le> k' \<and> k' \<le> 8 \<and> isValid B r c k'} \<le> card {0..8::int}"
    by (rule card_mono) auto
  then show ?thesis by (simp add: cnt_def countOptions_card)
qed

lemma cnt_empty:
  assumes "cell B r c = 0" "0 \<le> c" "c < 9"
  shows "cnt B r c = int (card {k \<in> {1..8}. isValid B r c k})"
proof -
  have "occurs_row B r 0" unfolding occurs_row_def using assms by auto
  then have "\<not> isValid B r c 0" by (simp add: isValid_iff)
  then have "k' \<in> {k'. 0 \<le> k' \<and> k' \<le> 8 \<and> isValid B r c k'}
               \<longleftrightarrow> k' \<in> {k \<in> {1..8}. isValid B r c k}" for k'
    by (cases "k' = 0") auto
  then have "{k'. 0 \<le> k' \<and> k' \<le> 8 \<and> isValid B r c k'} = {k \<in> {1..8}. isValid B r c k}"
    by blast
  then show ?thesis by (simp add: cnt_def countOptions_card)
qed

lemma scan_inv_skip:
  assumes "scan_inv B r c m br bc" "cell B r c \<noteq> 0"
  shows "scan_inv B r (c + 1) m br bc"
proof -
  have "before r' c' r c" if "empty_at B r' c'" "before r' c' r (c + 1)" for r' c'
  proof -
    have "\<not> (r' = r \<and> c' = c)" using that(1) assms(2) by (auto simp: empty_at_def)
    then show ?thesis using that(2) unfolding before_def by linarith
  qed
  then show ?thesis using assms(1) unfolding scan_inv_def by blast
qed

lemma scan_inv_wrap:
  assumes "scan_inv B r c m br bc" "\<not> c < 9"
  shows "scan_inv B (r + 1) 0 m br bc"
proof -
  have "\<And>r' c'. empty_at B r' c' \<Longrightarrow> before r' c' (r + 1) 0 \<Longrightarrow> before r' c' r c"
    using assms(2) by (auto simp: before_def empty_at_def)
  then show ?thesis using assms(1) unfolding scan_inv_def by blast
qed

lemma scan_inv_keep:
  assumes "scan_inv B r c m br bc" "\<not> cnt B r c < m"
  shows "scan_inv B r (c + 1) m br bc"
proof -
  have lt: "cnt B r c < INT_MAX" using cnt_bounds [of B r c] by (simp add: INT_MAX_def)
  have "\<And>r' c'. before r' c' r (c + 1) \<Longrightarrow> before r' c' r c \<or> (r' = r \<and> c' = c)"
    by (auto simp: before_def)
  then show ?thesis using assms lt unfolding scan_inv_def by (metis linorder_not_less)
qed

lemma scan_inv_better:
  assumes "scan_inv B r c m br bc" "cnt B r c < m" "empty_at B r c"
  shows "scan_inv B r (c + 1) (cnt B r c) r c"
proof -
  have b: "\<And>r' c'. before r' c' r (c + 1) \<Longrightarrow> before r' c' r c \<or> (r' = r \<and> c' = c)"
    by (auto simp: before_def)
  have "\<forall>r' c'. empty_at B r' c' \<and> before r' c' r (c + 1) \<longrightarrow> cnt B r c \<le> cnt B r' c'"
  proof (intro allI impI)
    fix r' c' assume a: "empty_at B r' c' \<and> before r' c' r (c + 1)"
    then consider "before r' c' r c" | "r' = r \<and> c' = c" using b by blast
    then show "cnt B r c \<le> cnt B r' c'"
    proof cases
      case 1
      then show ?thesis using assms(1,2) a unfolding scan_inv_def by force
    next
      case 2
      then show ?thesis by simp
    qed
  qed
  then show ?thesis using assms(3) unfolding scan_inv_def by blast
qed

lemma scan_inv_end:
  assumes "scan_inv B r c m br bc" "\<not> r < 9"
  shows "scan_ok B (if br = - 1 \<and> bc = - 1 then (- 1, - 1, 0) else (br, bc, m))"
proof -
  have all: "\<And>r' c'. empty_at B r' c' \<Longrightarrow> before r' c' r c"
    using assms(2) by (auto simp: before_def empty_at_def)
  from assms(1) show ?thesis unfolding scan_inv_def
  proof (elim disjE conjE)
    assume "br = - 1" "bc = - 1" "\<forall>r' c'. empty_at B r' c' \<longrightarrow> \<not> before r' c' r c"
    then show ?thesis using all by (auto simp: scan_ok_def)
  next
    assume e: "empty_at B br bc" and m: "m = cnt B br bc"
      and le: "\<forall>r' c'. empty_at B r' c' \<and> before r' c' r c \<longrightarrow> m \<le> cnt B r' c'"
    from e have "\<not> (br = - 1 \<and> bc = - 1)" by (auto simp: empty_at_def)
    moreover have "\<forall>r' c'. empty_at B r' c' \<longrightarrow> m \<le> cnt B r' c'" using le all by blast
    ultimately show ?thesis using e m by (auto simp: scan_ok_def)
  qed
qed

lemma findNextCell_scan_ok:
  "0 \<le> r \<Longrightarrow> 0 \<le> c \<Longrightarrow> scan_inv B r c m br bc \<Longrightarrow>
   scan_ok B (findNextCell_scan B r c m br bc)"
proof (induction B r c m br bc rule: findNextCell_scan.induct)
  case (1 B r c m br bc)
  note unfold = findNextCell_scan.simps [of B r c m br bc]
  show ?case
  proof (cases "r < 9")
    case False
    then show ?thesis using scan_inv_end [OF "1.prems"(3) False] by (simp add: unfold)
  next
    case r9: True
    show ?thesis
    proof (cases "c < 9")
      case False
      have "scan_ok B (findNextCell_scan B (r + 1) 0 m br bc)"
        using "1.IH"(4) [OF r9 False] "1.prems" scan_inv_wrap [OF "1.prems"(3) False] by simp
      then show ?thesis using r9 False by (simp add: unfold)
    next
      case c9: True
      show ?thesis
      proof (cases "cell B r c = 0")
        case False
        have "scan_ok B (findNextCell_scan B r (c + 1) m br bc)"
          using "1.IH"(3) [OF r9 c9 False] "1.prems" scan_inv_skip [OF "1.prems"(3) False] by simp
        then show ?thesis using r9 c9 False by (simp add: unfold)
      next
        case z: True
        have e: "empty_at B r c" using z r9 c9 "1.prems" by (simp add: empty_at_def)
        show ?thesis
        proof (cases "cnt B r c < m")
          case False
          have "scan_ok B (findNextCell_scan B r (c + 1) m br bc)"
            using "1.IH"(2) [OF r9 c9 z refl] False "1.prems"
              scan_inv_keep [OF "1.prems"(3) False] by (simp add: cnt_def)
          then show ?thesis using r9 c9 z False by (simp add: unfold cnt_def)
        next
          case lt: True
          show ?thesis
          proof (cases "cnt B r c = 1")
            case True
            then have "scan_ok B (r, c, cnt B r c)" using e by (simp add: scan_ok_def)
            then show ?thesis using r9 c9 z lt True by (simp add: unfold cnt_def)
          next
            case False
            have "scan_ok B (findNextCell_scan B r (c + 1) (cnt B r c) r c)"
              using "1.IH"(1) [OF r9 c9 z refl] lt False "1.prems"
                scan_inv_better [OF "1.prems"(3) lt e] by (simp add: cnt_def)
            then show ?thesis using r9 c9 z lt False by (simp add: unfold cnt_def Let_def)
          qed
        qed
      qed
    qed
  qed
qed

lemma findNextCell_ok: "scan_ok B (findNextCell B)"
proof -
  have "scan_inv B 0 0 INT_MAX (- 1) (- 1)"
    by (auto simp: scan_inv_def before_def empty_at_def)
  then show ?thesis unfolding findNextCell_def
    using findNextCell_scan_ok [of 0 0 B INT_MAX "- 1" "- 1"] by simp
qed

section \<open>The cell selector: claims\<close>

lemma empty_at_iff: "empty_at B r c \<longleftrightarrow> r \<in> {0..8} \<and> c \<in> {0..8} \<and> cell B r c = 0"
  by (auto simp: empty_at_def)

lemma card_filter_upto:
  "int (card {k \<in> {a..b}. P k}) = int (length (filter P [a..b]))"
proof -
  have "{k \<in> {a..b}. P k} = set (filter P [a..b])" by auto
  moreover have "distinct (filter P [a..b])" by simp
  ultimately show ?thesis by (simp add: distinct_card del: set_filter)
qed

lemma cnt_filter:
  assumes "empty_at B r c"
  shows "cnt B r c = int (length (filter (isValid B r c) [1..8]))"
  using assms cnt_empty [of B r c] card_filter_upto [of 1 8 "isValid B r c"]
  by (simp add: empty_at_def)

lemma upto_1_9: "[1..9::int] = [1..8] @ [9]"
  by (simp add: upto_rec2)


lemma findNextCell_cases:
  obtains (full) "findNextCell B = (- 1, - 1, 0)" "\<And>r c. \<not> empty_at B r c"
  | (cell) r c where "findNextCell B = (r, c, cnt B r c)" "empty_at B r c"
      "cnt B r c = 1 \<or> (\<forall>r' c'. empty_at B r' c' \<longrightarrow> cnt B r c \<le> cnt B r' c')"
proof -
  obtain r c n where res: "findNextCell B = (r, c, n)" by (cases "findNextCell B") auto
  from findNextCell_ok [of B] res
  consider "r = - 1 \<and> c = - 1 \<and> n = 0 \<and> (\<forall>r' c'. \<not> empty_at B r' c')"
    | "empty_at B r c \<and> n = cnt B r c
        \<and> (n = 1 \<or> (\<forall>r' c'. empty_at B r' c' \<longrightarrow> n \<le> cnt B r' c'))"
    unfolding scan_ok_def by auto
  then show thesis
  proof cases
    case 1
    then show ?thesis using res full by blast
  next
    case 2
    then show ?thesis using res cell [of r c] by blast
  qed
qed

lemma findNextCell_full:
  assumes "\<And>r c. \<not> empty_at B r c"
  shows "findNextCell B = (- 1, - 1, 0)"
  by (rule findNextCell_cases [of B]) (use assms in auto)

lemma findNextCell_returned:
  assumes "findNextCell B = (r, c, n)" "empty_at B r' c'"
  shows "empty_at B r c \<and> n = cnt B r c"
  by (rule findNextCell_cases [of B]) (use assms in auto)

lemma findNextCell_count:
  assumes "findNextCell B = (r, c, n)" "empty_at B r c"
  shows "n = cnt B r c"
  using findNextCell_returned [OF assms] by simp

text \<open>
  Claim C7. For an empty cell \<open>(r, c)\<close> of a 9x9 board, the option count that the
  counting loop of \<open>findNextCell\<close> computes, and that \<open>findNextCell\<close> returns when
  it returns this cell, is the number of digits \<open>k\<close> in \<open>1 .. 8\<close> that \<open>isValid\<close>
  accepts: the loop runs over \<open>0 .. 8\<close>, digit 0 collides with the empty cell itself,
  and digit 9 is never tried. So a cell whose only legal digit is 9 has count 0.
\<close>

theorem findNextCell_counts_1_to_8:
  assumes "wf_board B" "r \<in> {0..8}" "c \<in> {0..8}" "cell B r c = 0"
  shows "countOptions B r c 0 0 = int (length (filter (isValid B r c) [1..8]))
       \<and> (\<forall>n. findNextCell B = (r, c, n) \<longrightarrow>
              n = int (length (filter (isValid B r c) [1..8])))
       \<and> (legal_digits B r c = [9] \<longrightarrow>
              countOptions B r c 0 0 = 0 \<and> (\<forall>n. findNextCell B = (r, c, n) \<longrightarrow> n = 0))"
proof -
  have e: "empty_at B r c" using assms by (simp add: empty_at_iff)
  have c: "countOptions B r c 0 0 = int (length (filter (isValid B r c) [1..8]))"
    using cnt_filter [OF e] by (simp add: cnt_def)
  have f: "n = int (length (filter (isValid B r c) [1..8]))" if "findNextCell B = (r, c, n)" for n
    using findNextCell_count [OF that e] cnt_filter [OF e] by simp
  have z: "int (length (filter (isValid B r c) [1..8])) = 0" if nine: "legal_digits B r c = [9]"
  proof -
    have split: "legal_digits B r c
        = filter (isValid B r c) [1..8] @ (if isValid B r c 9 then [9] else [])"
      by (simp add: legal_digits_def upto_1_9)
    have "filter (isValid B r c) [1..8] = []"
    proof (cases "isValid B r c 9")
      case True
      then show ?thesis using split nine by simp
    next
      case False
      then have "filter (isValid B r c) [1..8] = [9]" using split nine by simp
      then have "9 \<in> set (filter (isValid B r c) [1..8])" by simp
      then show ?thesis by simp
    qed
    then show ?thesis by simp
  qed
  have c0: "countOptions B r c 0 0 = 0" if "legal_digits B r c = [9]"
    using c z [OF that] by linarith
  have f0: "n = 0" if "legal_digits B r c = [9]" "findNextCell B = (r, c, n)" for n
    using f [OF that(2)] z [OF that(1)] by linarith
  show ?thesis using c f c0 f0 by blast
qed

theorem findNextCell_counts_1_to_8_witness:
  "wf_board board_last_empty \<and> (8::int) \<in> {0..8} \<and> cell board_last_empty 8 8 = 0
   \<and> legal_digits board_last_empty 8 8 = [9]
   \<and> findNextCell board_last_empty = (8, 8, 0)
   \<and> countOptions board_last_empty 8 8 0 0 = 0
   \<and> int (length (filter (isValid board_last_empty 8 8) [1..8])) = 0"
proof -
  have wf: "wf_board board_last_empty" by code_simp
  have i: "(8::int) \<in> {0..8}" by simp
  have e: "cell board_last_empty 8 8 = 0" by code_simp
  have nine: "legal_digits board_last_empty 8 8 = [9]" by code_simp
  have res: "findNextCell board_last_empty = (8, 8, 0)" by code_simp
  note inst = findNextCell_counts_1_to_8 [OF wf i i e]
  have cnt0: "countOptions board_last_empty 8 8 0 0 = 0"
    using nine inst by blast
  have "countOptions board_last_empty 8 8 0 0
        = int (length (filter (isValid board_last_empty 8 8) [1..8]))"
    using inst by blast
  then have len0: "int (length (filter (isValid board_last_empty 8 8) [1..8])) = 0"
    using cnt0 by simp
  show ?thesis
    using wf i e nine res cnt0 len0 by blast
qed

text \<open>
  Claim C8. On a 9x9 board without an empty cell, \<open>findNextCell\<close> returns
  \<open>(-1, -1, 0)\<close>, and \<open>solveBoardEfficient\<close> returns true in its first invocation,
  without a recursive call, and leaves the board as it was.
\<close>

theorem full_board_is_sentinel:
  assumes "wf_board B" "no_empty_cell B"
  shows "findNextCell B = (- 1, - 1, 0)
       \<and> solveBoardEfficient (Suc 0) B = Some (True, B)
       \<and> (\<forall>n. solveBoardEfficient (Suc n) B = Some (True, B))"
proof -
  have "\<And>r c. \<not> empty_at B r c"
    using assms(2) by (auto simp: empty_at_iff no_empty_cell_def)
  then have "findNextCell B = (- 1, - 1, 0)" by (rule findNextCell_full)
  then show ?thesis by simp
qed

theorem full_board_is_sentinel_witness:
  "wf_board board_solved \<and> no_empty_cell board_solved
   \<and> findNextCell board_solved = (- 1, - 1, 0)
   \<and> solveBoardEfficient (Suc 0) board_solved = Some (True, board_solved)"
proof -
  have wf: "wf_board board_solved" by code_simp
  have full: "no_empty_cell board_solved" by code_simp
  show ?thesis
    using wf full full_board_is_sentinel [OF wf full] by blast
qed












lemma only_empty_cellD:
  assumes "only_empty_cell B r0 c0" "r \<in> {0..8}" "c \<in> {0..8}" "cell B r c = 0"
  shows "r = r0 \<and> c = c0"
  using assms unfolding only_empty_cell_def by blast


lemma cnt_le_legal:
  assumes "empty_at B r c"
  shows "cnt B r c \<le> int (length (legal_digits B r c))"
  using assms by (simp add: cnt_filter legal_digits_def upto_1_9)







section \<open>Valid placements\<close>

lemma block_index: "i \<in> {3 * (r div 3)..3 * (r div 3) + 2} \<longleftrightarrow> i div 3 = r div (3::int)"
  by auto

lemma block_range: "i div 3 = x div 3 \<Longrightarrow> x \<in> {0..8} \<Longrightarrow> i \<in> {0..8::int}"
proof -
  assume a: "i div 3 = x div 3" "x \<in> {0..8}"
  have "0 \<le> i \<and> i \<le> 8" if "i div 3 = x div 3" "0 \<le> x" "x \<le> 8"
    using that by presburger
  then show ?thesis using a by simp
qed

lemma occurs_block_iff:
  assumes "r \<in> {0..8}" "c \<in> {0..8}"
  shows "occurs_block B r c k \<longleftrightarrow>
      (\<exists>r' c'. r' \<in> {0..8} \<and> c' \<in> {0..8} \<and> r' div 3 = r div 3 \<and> c' div 3 = c div 3
          \<and> cell B r' c' = k)"
proof
  assume "occurs_block B r c k"
  then obtain i j where i: "i \<in> {3 * (r div 3)..3 * (r div 3) + 2}"
    and j: "j \<in> {3 * (c div 3)..3 * (c div 3) + 2}" and v: "cell B i j = k"
    unfolding occurs_block_def by blast
  have "i div 3 = r div 3" "j div 3 = c div 3"
    using i j block_index by blast+
  then show "\<exists>r' c'. r' \<in> {0..8} \<and> c' \<in> {0..8} \<and> r' div 3 = r div 3 \<and> c' div 3 = c div 3
          \<and> cell B r' c' = k"
    using v block_range assms by blast
next
  assume "\<exists>r' c'. r' \<in> {0..8} \<and> c' \<in> {0..8} \<and> r' div 3 = r div 3 \<and> c' div 3 = c div 3
          \<and> cell B r' c' = k"
  then obtain i j where d: "i div 3 = r div 3" "j div 3 = c div 3" and v: "cell B i j = k"
    by blast
  have "i \<in> {3 * (r div 3)..3 * (r div 3) + 2}" "j \<in> {3 * (c div 3)..3 * (c div 3) + 2}"
    using d block_index by blast+
  then show "occurs_block B r c k" unfolding occurs_block_def using v by blast
qed

lemma isValid_peers:
  assumes "r \<in> {0..8}" "c \<in> {0..8}"
  shows "isValid B r c k \<longleftrightarrow>
     (\<forall>r'\<in>{0..8}. \<forall>c'\<in>{0..8}.
        (r' = r \<or> c' = c \<or> (r' div 3 = r div 3 \<and> c' div 3 = c div 3)) \<longrightarrow> cell B r' c' \<noteq> k)"
  (is "_ \<longleftrightarrow> ?R")
proof
  assume v: "isValid B r c k"
  then have n: "\<not> occurs_row B r k" "\<not> occurs_col B c k" "\<not> occurs_block B r c k"
    by (simp_all add: isValid_iff)
  show ?R
  proof (intro ballI impI)
    fix r' c' :: int
    assume rc: "r' \<in> {0..8}" "c' \<in> {0..8}"
      and d: "r' = r \<or> c' = c \<or> (r' div 3 = r div 3 \<and> c' div 3 = c div 3)"
    from d show "cell B r' c' \<noteq> k"
    proof (elim disjE)
      assume "r' = r"
      then show ?thesis using n(1) rc unfolding occurs_row_def by blast
    next
      assume "c' = c"
      then show ?thesis using n(2) rc unfolding occurs_col_def by blast
    next
      assume "r' div 3 = r div 3 \<and> c' div 3 = c div 3"
      then show ?thesis using n(3) rc unfolding occurs_block_iff [OF assms] by blast
    qed
  qed
next
  assume R: ?R
  have "\<not> occurs_row B r k" unfolding occurs_row_def using R assms by blast
  moreover have "\<not> occurs_col B c k" unfolding occurs_col_def using R assms by blast
  moreover have "\<not> occurs_block B r c k" unfolding occurs_block_iff [OF assms] using R by blast
  ultimately show "isValid B r c k" by (simp add: isValid_iff)
qed

lemma isValid_peerD:
  assumes "r \<in> {0..8}" "c \<in> {0..8}" "isValid B r c k" "r' \<in> {0..8}" "c' \<in> {0..8}"
    and "r' = r \<or> c' = c \<or> (r' div 3 = r div 3 \<and> c' div 3 = c div 3)"
  shows "cell B r' c' \<noteq> k"
  using assms(3-) unfolding isValid_peers [OF assms(1,2)] by blast

lemma ext_refl: "wf_board B \<Longrightarrow> ext B B"
  by (simp add: ext_def preserved_def)

lemma ext_trans:
  assumes "ext A B" "ext B C" "\<forall>r\<in>{0..8}. \<forall>c\<in>{0..8}. cell A r c \<noteq> 0 \<longrightarrow> cell B r c \<noteq> 0"
  shows "ext A C"
  using assms unfolding ext_def preserved_def by auto

lemma preserved_nonzero:
  "preserved A B \<Longrightarrow> r \<in> {0..8} \<Longrightarrow> c \<in> {0..8} \<Longrightarrow> cell A r c \<noteq> 0 \<Longrightarrow> cell B r c \<noteq> 0"
  by (auto simp: preserved_def)

lemma ext_trans':
  assumes "ext A B" "ext B C"
  shows "ext A C"
proof (rule ext_trans [OF assms])
  show "\<forall>r\<in>{0..8}. \<forall>c\<in>{0..8}. cell A r c \<noteq> 0 \<longrightarrow> cell B r c \<noteq> 0"
    using assms(1) preserved_nonzero unfolding ext_def by blast
qed

lemma cell_put_in:
  assumes "wf_board B" "empty_at B r c" "r' \<in> {0..8}" "c' \<in> {0..8}"
  shows "cell (put B r c v) r' c' = (if r' = r \<and> c' = c then v else cell B r' c')"
  using assms cell_put [of B r c r' c' v] by (simp add: empty_at_def)

lemma ext_put:
  assumes wf: "wf_board B" and e: "empty_at B r c" and v: "isValid B r c k"
    and k: "1 \<le> k" "k \<le> 9"
  shows "ext B (put B r c k)"
proof -
  have rc: "r \<in> {0..8}" "c \<in> {0..8}" and z: "cell B r c = 0"
    using e by (auto simp: empty_at_def)
  note cp = cell_put_in [OF wf e]
  have p: "preserved B (put B r c k)"
    unfolding preserved_def using cp z by auto
  have rg: "cells_in_range (put B r c k)" if "cells_in_range B"
    using that k cp unfolding cells_in_range_def by auto
  have nc: "noclash (put B r c k)" if n: "noclash B"
    unfolding noclash_def
  proof (intro ballI impI)
    fix a b a' b' :: int
    assume ab: "a \<in> {0..8}" "b \<in> {0..8}" "a' \<in> {0..8}" "b' \<in> {0..8}"
      and pe: "peers a b a' b' \<and> cell (put B r c k) a b \<noteq> 0"
    note val = isValid_peerD [OF rc v]
    have here: "cell (put B r c k) r c = k" using cp [OF rc] by simp
    have other: "cell (put B r c k) x y = cell B x y"
      if "x \<in> {0..8}" "y \<in> {0..8}" "\<not> (x = r \<and> y = c)" for x y
      using cp [OF that(1,2)] that(3) by simp
    show "cell (put B r c k) a b \<noteq> cell (put B r c k) a' b'"
    proof (cases "a = r \<and> b = c")
      case True
      then have ne: "\<not> (a' = r \<and> b' = c)" using pe unfolding peers_def by blast
      have "a' = r \<or> b' = c \<or> (a' div 3 = r div 3 \<and> b' div 3 = c div 3)"
        using pe True unfolding peers_def by metis
      then have "cell B a' b' \<noteq> k" using val ab by blast
      then show ?thesis using True here other [OF ab(3,4) ne] by simp
    next
      case False
      note eq1 = other [OF ab(1,2) False]
      show ?thesis
      proof (cases "a' = r \<and> b' = c")
        case True
        have "a = r \<or> b = c \<or> (a div 3 = r div 3 \<and> b div 3 = c div 3)"
          using pe True unfolding peers_def by metis
        then have "cell B a b \<noteq> k" using val ab by blast
        then show ?thesis using True here eq1 by simp
      next
        case ne: False
        have "peers a b a' b' \<and> cell B a b \<noteq> 0" using pe eq1 by simp
        then have "cell B a b \<noteq> cell B a' b'"
          using n [unfolded noclash_def, rule_format, OF ab] by blast
        then show ?thesis using eq1 other [OF ab(3,4) ne] by simp
      qed
    qed
  qed
  show ?thesis unfolding ext_def using wf p rg nc by simp
qed

section \<open>What solveBoard leaves behind\<close>

lemma filled_from_end: "filled_from B 9 c"
  by (auto simp: filled_from_def before_def)

lemma filled_from_wrap: "filled_from B (r + 1) 0 \<Longrightarrow> filled_from B r 9"
  unfolding filled_from_def before_def by auto

lemma filled_from_step:
  assumes "filled_from B r (c + 1)" "cell B r c \<noteq> 0"
  shows "filled_from B r c"
  unfolding filled_from_def
proof (intro ballI impI)
  fix r' c' :: int
  assume rc: "r' \<in> {0..8}" "c' \<in> {0..8}" and nb: "\<not> before r' c' r c"
  show "cell B r' c' \<noteq> 0"
  proof (cases "r' = r \<and> c' = c")
    case True
    then show ?thesis using assms(2) by simp
  next
    case False
    then have "\<not> before r' c' r (c + 1)" using nb unfolding before_def by linarith
    then show ?thesis using assms(1) rc unfolding filled_from_def by blast
  qed
qed

lemma sb_post_placed:
  assumes wf: "wf_board B" and e: "empty_at B r c" and v: "isValid B r c k"
    and k: "1 \<le> k" "k \<le> 9"
    and post: "ext (put B r c k) B'"
  shows "ext B B' \<and> cell B' r c \<noteq> 0"
proof -
  have rc: "r \<in> {0..8}" "c \<in> {0..8}" using e by (auto simp: empty_at_def)
  have "cell (put B r c k) r c = k" using cell_put_in [OF wf e rc] by simp
  then have "cell B' r c = k"
    using post rc k unfolding ext_def preserved_def by auto
  then show ?thesis using ext_trans' [OF ext_put [OF wf e v k] post] k by simp
qed

lemma put_back:
  assumes "wf_board B" "empty_at B r c"
  shows "put (put B r c k) r c 0 = B"
  using assms put_restore [of B r c 0 k] by (simp add: empty_at_def)

declare solveBoard_try.simps [simp del] solveBoardEfficient_try.simps [simp del]

lemma sb_post_skip:
  assumes "sb_post B r (c + 1) res B'" "cell B r c \<noteq> 0" "r \<in> {0..8}" "c \<in> {0..8}"
  shows "sb_post B r c res B'"
proof (cases res)
  case True
  then have x: "ext B B'" and f: "filled_from B' r (c + 1)"
    using assms(1) by (simp_all add: sb_post_def)
  have "cell B' r c \<noteq> 0"
    using x assms(2-) preserved_nonzero unfolding ext_def by blast
  then show ?thesis using True x filled_from_step [OF f] by (simp add: sb_post_def)
next
  case False
  then show ?thesis using assms(1) by (simp add: sb_post_def)
qed

lemma sb_post_try:
  assumes wf: "wf_board B" and e: "empty_at B r c" and v: "isValid B r c k"
    and k: "1 \<le> k" "k \<le> 9"
    and post: "sb_post (put B r c k) r (c + 1) True B'"
  shows "sb_post B r c True B'"
proof -
  have x: "ext (put B r c k) B'" and f: "filled_from B' r (c + 1)"
    using post by (simp_all add: sb_post_def)
  have "ext B B' \<and> cell B' r c \<noteq> 0" by (rule sb_post_placed [OF wf e v k x])
  then show ?thesis using filled_from_step [OF f] by (simp add: sb_post_def)
qed

lemma solveBoard_post:
  "wf_board B \<Longrightarrow> 0 \<le> r \<Longrightarrow> r \<le> 9 \<Longrightarrow> 0 \<le> c \<Longrightarrow> c \<le> 9 \<Longrightarrow>
     solveBoard n B r c = Some (res, B') \<Longrightarrow> sb_post B r c res B'"
  "wf_board B \<Longrightarrow> empty_at B r c \<Longrightarrow> 1 \<le> k \<Longrightarrow>
     solveBoard_try n B r c k = Some (res, B') \<Longrightarrow> sb_post B r c res B'"
proof (induction n B r c and n B r c k arbitrary: res B' and res B'
    rule: solveBoard_solveBoard_try.induct)
  case (1 B r c)
  then show ?case by simp
next
  case (2 n B r c)
  note wf = "2.prems"(1) and run = "2.prems"(6)
  show ?case
  proof (cases "r = 9")
    case True
    then have "res = True" "B' = B" using run by auto
    then show ?thesis using True wf by (simp add: sb_post_def ext_refl filled_from_end)
  next
    case r: False
    then have r8: "r \<in> {0..8}" using "2.prems" by simp
    show ?thesis
    proof (cases "c = 9")
      case True
      have "solveBoard n B (r + 1) 0 = Some (res, B')" using run r True by simp
      then have "sb_post B (r + 1) 0 res B'"
        using "2.IH"(1) [OF r True wf] "2.prems" r by simp
      then show ?thesis using True filled_from_wrap by (auto simp: sb_post_def)
    next
      case c: False
      then have c8: "c \<in> {0..8}" using "2.prems" by simp
      show ?thesis
      proof (cases "cell B r c \<noteq> 0")
        case True
        have "solveBoard n B r (c + 1) = Some (res, B')" using run r c True by simp
        then have "sb_post B r (c + 1) res B'"
          using "2.IH"(2) [OF r c True wf] "2.prems" c by simp
        then show ?thesis using True r8 c8 by (rule sb_post_skip)
      next
        case False
        have e: "empty_at B r c" using False r8 c8 by (simp add: empty_at_def)
        have "solveBoard_try n B r c 1 = Some (res, B')" using run r c False by simp
        then show ?thesis using "2.IH"(3) [OF r c False wf e] by simp
      qed
    qed
  qed
next
  case (3 n B r c k)
  note wf = "3.prems"(1) and e = "3.prems"(2) and k1 = "3.prems"(3) and run = "3.prems"(4)
  note unfold = solveBoard_try.simps [of n B r c k]
  have rc: "0 \<le> r" "r \<le> 9" "0 \<le> c + 1" "c + 1 \<le> 9" using e by (auto simp: empty_at_def)
  show ?case
  proof (cases "k \<le> 9")
    case False
    then have "res = False" "B' = B" using run by (auto simp: unfold)
    then show ?thesis by (simp add: sb_post_def)
  next
    case k9: True
    show ?thesis
    proof (cases "isValid B r c k")
      case False
      have "solveBoard_try n B r c (k + 1) = Some (res, B')" using run k9 False by (simp add: unfold)
      then show ?thesis using "3.IH"(3) [OF k9 False wf e] k1 by simp
    next
      case v: True
      have wfp: "wf_board (put B r c k)" using wf by simp
      show ?thesis
      proof (cases "solveBoard n (put B r c k) r (c + 1)")
        case None
        then show ?thesis using run k9 v by (simp add: unfold)
      next
        case (Some x2)
        obtain b B1 where x2: "x2 = (b, B1)" by (cases x2) auto
        have inner: "sb_post (put B r c k) r (c + 1) b B1"
          using "3.IH"(1) [OF k9 v wfp rc] Some x2 by simp
        show ?thesis
        proof (cases b)
          case True
          then have "res = True" "B' = B1" using run k9 v Some x2 by (auto simp: unfold)
          then show ?thesis using sb_post_try [OF wf e v k1 k9] inner True by simp
        next
          case False
          then have B1: "B1 = put B r c k" using inner by (simp add: sb_post_def)
          have restored: "put B1 r c 0 = B" unfolding B1 by (rule put_back [OF wf e])
          have "solveBoard_try n B r c (k + 1) = Some (res, B')"
            using run k9 v Some x2 False restored by (simp add: unfold)
          moreover have "\<And>res B'. solveBoard_try n B r c (k + 1) = Some (res, B')
              \<Longrightarrow> sb_post B r c res B'"
            using "3.IH"(2) [OF k9 v Some, of b B1] x2 False restored wf e k1 by simp
          ultimately show ?thesis by blast
        qed
      qed
    qed
  qed
qed

section \<open>What solveBoardEfficient leaves behind\<close>

lemma no_empty_iff: "(\<forall>r c. \<not> empty_at B r c) \<longleftrightarrow> (\<forall>r\<in>{0..8}. \<forall>c\<in>{0..8}. cell B r c \<noteq> 0)"
  by (auto simp: empty_at_def)

lemma solveBoardEfficient_post:
  "wf_board B \<Longrightarrow> solveBoardEfficient n B = Some (res, B') \<Longrightarrow> se_post B res B'"
  "wf_board B \<Longrightarrow> empty_at B row col \<Longrightarrow> 1 \<le> k \<Longrightarrow>
     solveBoardEfficient_try n B row col k = Some (res, B') \<Longrightarrow> se_post B res B'"
proof (induction n B and n B row col k arbitrary: res B' and res B'
    rule: solveBoardEfficient_solveBoardEfficient_try.induct)
  case (1 B)
  then show ?case by simp
next
  case (2 n B)
  note wf = "2.prems"(1) and run = "2.prems"(2)
  show ?case
  proof (rule findNextCell_cases [of B])
    assume f: "findNextCell B = (- 1, - 1, 0)" and none: "\<And>r c. \<not> empty_at B r c"
    then have "res = True" "B' = B" using run by auto
    then show ?thesis using wf none no_empty_iff [of B] by (simp add: se_post_def ext_refl)
  next
    fix r c
    assume f: "findNextCell B = (r, c, cnt B r c)" and e: "empty_at B r c"
    then have ne: "\<not> (r = - 1 \<and> c = - 1)" by (auto simp: empty_at_def)
    have "solveBoardEfficient_try n B r c 1 = Some (res, B')" using run f ne by auto
    then show ?thesis using "2.IH" [OF f [symmetric] refl ne wf e] by simp
  qed
next
  case (3 n B row col k)
  note wf = "3.prems"(1) and e = "3.prems"(2) and k1 = "3.prems"(3) and run = "3.prems"(4)
  note unfold = solveBoardEfficient_try.simps [of n B row col k]
  show ?case
  proof (cases "k \<le> 9")
    case False
    then have "res = False" "B' = B" using run by (auto simp: unfold)
    then show ?thesis by (simp add: se_post_def)
  next
    case k9: True
    show ?thesis
    proof (cases "isValid B row col k")
      case False
      have "solveBoardEfficient_try n B row col (k + 1) = Some (res, B')"
        using run k9 False by (simp add: unfold)
      then show ?thesis using "3.IH"(3) [OF k9 False wf e] k1 by simp
    next
      case v: True
      have wfp: "wf_board (put B row col k)" using wf by simp
      show ?thesis
      proof (cases "solveBoardEfficient n (put B row col k)")
        case None
        then show ?thesis using run k9 v by (simp add: unfold)
      next
        case (Some x2)
        obtain b B1 where x2: "x2 = (b, B1)" by (cases x2) auto
        have inner: "se_post (put B row col k) b B1"
          using "3.IH"(1) [OF k9 v wfp] Some x2 by simp
        show ?thesis
        proof (cases b)
          case True
          then have res: "res = True" "B' = B1" using run k9 v Some x2 by (auto simp: unfold)
          have "ext (put B row col k) B1" using inner True by (simp add: se_post_def)
          then have "ext B B1" using sb_post_placed [OF wf e v k1 k9] by blast
          then show ?thesis using res inner True by (simp add: se_post_def)
        next
          case False
          then have B1: "B1 = put B row col k" using inner by (simp add: se_post_def)
          have restored: "put B1 row col 0 = B" unfolding B1 by (rule put_back [OF wf e])
          have "solveBoardEfficient_try n B row col (k + 1) = Some (res, B')"
            using run k9 v Some x2 False restored by (simp add: unfold)
          moreover have "\<And>res B'. solveBoardEfficient_try n B row col (k + 1) = Some (res, B')
              \<Longrightarrow> se_post B res B'"
            using "3.IH"(2) [OF k9 v Some, of b B1] x2 False restored wf e k1 by simp
          ultimately show ?thesis by blast
        qed
      qed
    qed
  qed
qed

section \<open>Rows, columns and blocks as lists\<close>

lemma upto_0_2: "[0..2::int] = [0, 1, 2]"
  by code_simp

lemma upto_0_8: "[0..8::int] = [0, 1, 2, 3, 4, 5, 6, 7, 8]"
  by code_simp

lemma row_of_cells: "row_of B r = map (at B) (row_cells r)"
  by (simp add: row_of_def row_cells_def at_def comp_def)

lemma col_of_cells: "col_of B c = map (at B) (col_cells c)"
  by (simp add: col_of_def col_cells_def at_def comp_def)

lemma block_of_cells: "block_of B br bc = map (at B) (block_cells br bc)"
  by (simp add: block_of_def block_cells_def at_def upto_0_2)

lemma row_cells_props:
  "distinct (row_cells r)" "length (row_cells r) = 9"
  "(a, b) \<in> set (row_cells r) \<longleftrightarrow> a = r \<and> b \<in> {0..8}"
  by (auto simp: row_cells_def distinct_map inj_on_def)

lemma col_cells_props:
  "distinct (col_cells c)" "length (col_cells c) = 9"
  "(a, b) \<in> set (col_cells c) \<longleftrightarrow> b = c \<and> a \<in> {0..8}"
  by (auto simp: col_cells_def distinct_map inj_on_def)

lemma div3_cases: "x div 3 = y \<longleftrightarrow> x = 3 * y \<or> x = 3 * y + 1 \<or> x = 3 * y + (2::int)"
  by presburger

lemma block_cells_props:
  "distinct (block_cells br bc)" "length (block_cells br bc) = 9"
  "(a, b) \<in> set (block_cells br bc) \<longleftrightarrow> a div 3 = br \<and> b div 3 = bc"
proof -
  show "distinct (block_cells br bc)" by (simp add: block_cells_def upto_0_2)
  show "length (block_cells br bc) = 9" by (simp add: block_cells_def upto_0_2)
  show "(a, b) \<in> set (block_cells br bc) \<longleftrightarrow> a div 3 = br \<and> b div 3 = bc"
    unfolding div3_cases by (auto simp: block_cells_def upto_0_2)
qed

lemma no_repeatsD:
  assumes "no_repeats (map f xs)" "x \<in> set xs" "y \<in> set xs" "x \<noteq> y" "f x \<noteq> 0"
  shows "f x \<noteq> f y"
proof
  assume eq: "f x = f y"
  have "distinct (map f (filter (\<lambda>x. f x \<noteq> 0) xs))"
    using assms(1) by (simp add: no_repeats_def filter_map comp_def)
  then have "inj_on f (set (filter (\<lambda>x. f x \<noteq> 0) xs))" by (simp add: distinct_map)
  moreover have "x \<in> set (filter (\<lambda>x. f x \<noteq> 0) xs)" "y \<in> set (filter (\<lambda>x. f x \<noteq> 0) xs)"
    using assms eq by auto
  ultimately show False using eq assms(4) by (meson inj_onD)
qed

lemma count_list_distinct: "distinct xs \<Longrightarrow> x \<in> set xs \<Longrightarrow> count_list xs x = 1"
  by (induction xs) auto

lemma each_digit_once_map:
  assumes "length xs = 9" "distinct xs"
  shows "each_digit_once (map f xs) \<longleftrightarrow> (\<forall>x\<in>set xs. f x \<in> {1..9}) \<and> inj_on f (set xs)"
proof
  assume once: "each_digit_once (map f xs)"
  have sub: "{1..9} \<subseteq> set (map f xs)"
  proof
    fix d :: int assume "d \<in> {1..9}"
    then have "count_list (map f xs) d = 1" using once by (simp add: each_digit_once_def)
    then show "d \<in> set (map f xs)" by (metis count_list_0_iff zero_neq_one)
  qed
  have "card (set (map f xs)) \<le> length (map f xs)" by (rule card_length)
  moreover have "card {1..9::int} \<le> card (set (map f xs))"
    by (rule card_mono [OF _ sub]) simp
  ultimately have c: "card (set (map f xs)) = 9" using assms(1) by simp
  then have d: "distinct (map f xs)" using assms(1) by (simp add: card_distinct)
  have "{1..9::int} = set (map f xs)"
    by (rule card_subset_eq [OF _ sub]) (use c in simp_all)
  then have "\<forall>x\<in>set xs. f x \<in> {1..9}" by (metis image_eqI set_map)
  then show "(\<forall>x\<in>set xs. f x \<in> {1..9}) \<and> inj_on f (set xs)"
    using d by (simp add: distinct_map)
next
  assume a: "(\<forall>x\<in>set xs. f x \<in> {1..9}) \<and> inj_on f (set xs)"
  then have d: "distinct (map f xs)" using assms(2) by (simp add: distinct_map)
  have sub: "set (map f xs) \<subseteq> {1..9}" using a by auto
  have "card (set (map f xs)) = length (map f xs)" using d by (rule distinct_card)
  then have c: "card (set (map f xs)) = 9" using assms(1) by simp
  have eq: "set (map f xs) = {1..9}"
    by (rule card_subset_eq [OF _ sub]) (use c in simp_all)
  show "each_digit_once (map f xs)"
    unfolding each_digit_once_def
  proof
    fix k :: int assume "k \<in> {1..9}"
    then have "k \<in> set (map f xs)" using eq by simp
    then show "count_list (map f xs) k = 1" by (rule count_list_distinct [OF d])
  qed
qed

lemma block_of_range: "r \<in> {0..8} \<Longrightarrow> r div 3 \<in> {0..2::int}"
  by auto

lemma in_block_range: "a div 3 = br \<Longrightarrow> br \<in> {0..2} \<Longrightarrow> a \<in> {0..8::int}"
proof -
  assume a: "a div 3 = br" "br \<in> {0..2}"
  have "0 \<le> a \<and> a \<le> 8" if "0 \<le> a div 3" "a div 3 \<le> 2"
    using that by presburger
  then show ?thesis using a by simp
qed

lemma peers_unit:
  assumes "peers r c r' c'" "r \<in> {0..8}" "c \<in> {0..8}" "r' \<in> {0..8}" "c' \<in> {0..8}"
  obtains (row) "(r, c) \<in> set (row_cells r)" "(r', c') \<in> set (row_cells r)"
  | (col) "(r, c) \<in> set (col_cells c)" "(r', c') \<in> set (col_cells c)"
  | (block) "(r, c) \<in> set (block_cells (r div 3) (c div 3))"
      "(r', c') \<in> set (block_cells (r div 3) (c div 3))"
proof -
  from assms(1) consider "r = r'" | "c = c'" | "r div 3 = r' div 3 \<and> c div 3 = c' div 3"
    unfolding peers_def by blast
  then show thesis
  proof cases
    case 1
    then show ?thesis using row assms by (simp add: row_cells_props)
  next
    case 2
    then show ?thesis using col assms by (simp add: col_cells_props)
  next
    case 3
    then show ?thesis using block by (simp add: block_cells_props)
  qed
qed

lemma conflict_free_noclash:
  assumes "conflict_free B"
  shows "noclash B"
  unfolding noclash_def
proof (intro ballI impI)
  fix r c r' c' :: int
  assume rg: "r \<in> {0..8}" "c \<in> {0..8}" "r' \<in> {0..8}" "c' \<in> {0..8}"
    and pc: "peers r c r' c' \<and> cell B r c \<noteq> 0"
  then have p: "peers r c r' c'" and nz: "at B (r, c) \<noteq> 0" by (simp_all add: at_def)
  have ne: "(r, c) \<noteq> (r', c')" using p unfolding peers_def by blast
  have "at B (r, c) \<noteq> at B (r', c')"
  proof (rule peers_unit [OF p rg])
    assume m: "(r, c) \<in> set (row_cells r)" "(r', c') \<in> set (row_cells r)"
    have "no_repeats (map (at B) (row_cells r))"
      using assms rg unfolding conflict_free_def row_of_cells by blast
    then show ?thesis using m ne nz by (rule no_repeatsD)
  next
    assume m: "(r, c) \<in> set (col_cells c)" "(r', c') \<in> set (col_cells c)"
    have "no_repeats (map (at B) (col_cells c))"
      using assms rg unfolding conflict_free_def col_of_cells by blast
    then show ?thesis using m ne nz by (rule no_repeatsD)
  next
    assume m: "(r, c) \<in> set (block_cells (r div 3) (c div 3))"
      "(r', c') \<in> set (block_cells (r div 3) (c div 3))"
    have "no_repeats (map (at B) (block_cells (r div 3) (c div 3)))"
      using assms block_of_range [OF rg(1)] block_of_range [OF rg(2)]
      unfolding conflict_free_def block_of_cells by blast
    then show ?thesis using m ne nz by (rule no_repeatsD)
  qed
  then show "cell B r c \<noteq> cell B r' c'" by (simp add: at_def)
qed

lemma unit_once:
  assumes n: "noclash B" and f: "full_board B"
    and d: "distinct u" and l: "length u = 9"
    and rg: "\<And>a b. (a, b) \<in> set u \<Longrightarrow> a \<in> {0..8} \<and> b \<in> {0..8}"
    and pe: "\<And>a b a' b'. (a, b) \<in> set u \<Longrightarrow> (a', b') \<in> set u \<Longrightarrow> (a, b) \<noteq> (a', b')
        \<Longrightarrow> peers a b a' b'"
  shows "each_digit_once (map (at B) u)"
proof -
  have v: "\<forall>x\<in>set u. at B x \<in> {1..9}"
  proof
    fix x assume "x \<in> set u"
    then have "fst x \<in> {0..8} \<and> snd x \<in> {0..8}" using rg [of "fst x" "snd x"] by simp
    then show "at B x \<in> {1..9}" using f unfolding full_board_def at_def by blast
  qed
  have "inj_on (at B) (set u)"
  proof (rule inj_onI)
    fix x y assume x: "x \<in> set u" and y: "y \<in> set u" and eq: "at B x = at B y"
    show "x = y"
    proof (rule ccontr)
      assume ne: "x \<noteq> y"
      obtain a b a' b' where xy: "x = (a, b)" "y = (a', b')" by (cases x, cases y) auto
      have p: "peers a b a' b'" using pe x y ne unfolding xy by blast
      have r: "a \<in> {0..8}" "b \<in> {0..8}" "a' \<in> {0..8}" "b' \<in> {0..8}"
        using rg x y unfolding xy by blast+
      have "cell B a b \<noteq> 0" using v x unfolding xy at_def by force
      then have "cell B a b \<noteq> cell B a' b'"
        using n [unfolded noclash_def, rule_format, OF r] p by blast
      then show False using eq unfolding xy at_def by simp
    qed
  qed
  then show ?thesis using v each_digit_once_map [OF l d, of "at B"] by blast
qed

lemma noclash_full_solved:
  assumes n: "noclash B" and f: "full_board B"
  shows "solved B"
  unfolding solved_def
proof (intro conjI ballI)
  fix r :: int assume r: "r \<in> {0..8}"
  show "each_digit_once (row_of B r)"
    unfolding row_of_cells
  proof (rule unit_once [OF n f row_cells_props(1,2)])
    fix a b assume "(a, b) \<in> set (row_cells r)"
    then show "a \<in> {0..8} \<and> b \<in> {0..8}" using r by (simp add: row_cells_props)
  next
    fix a b a' b'
    assume "(a, b) \<in> set (row_cells r)" "(a', b') \<in> set (row_cells r)" "(a, b) \<noteq> (a', b')"
    then have "a = a'" "a \<noteq> a' \<or> b \<noteq> b'" by (simp_all add: row_cells_props)
    then show "peers a b a' b'" unfolding peers_def by blast
  qed
next
  fix c :: int assume c: "c \<in> {0..8}"
  show "each_digit_once (col_of B c)"
    unfolding col_of_cells
  proof (rule unit_once [OF n f col_cells_props(1,2)])
    fix a b assume "(a, b) \<in> set (col_cells c)"
    then show "a \<in> {0..8} \<and> b \<in> {0..8}" using c by (simp add: col_cells_props)
  next
    fix a b a' b'
    assume "(a, b) \<in> set (col_cells c)" "(a', b') \<in> set (col_cells c)" "(a, b) \<noteq> (a', b')"
    then have "b = b'" "a \<noteq> a' \<or> b \<noteq> b'" by (simp_all add: col_cells_props)
    then show "peers a b a' b'" unfolding peers_def by blast
  qed
next
  fix br bc :: int assume b: "br \<in> {0..2}" "bc \<in> {0..2}"
  show "each_digit_once (block_of B br bc)"
    unfolding block_of_cells
  proof (rule unit_once [OF n f block_cells_props(1,2)])
    fix a b' assume "(a, b') \<in> set (block_cells br bc)"
    then have "a div 3 = br" "b' div 3 = bc" by (simp_all add: block_cells_props)
    then show "a \<in> {0..8} \<and> b' \<in> {0..8}"
      using b in_block_range by blast
  next
    fix a b' a' b''
    assume "(a, b') \<in> set (block_cells br bc)" "(a', b'') \<in> set (block_cells br bc)"
      "(a, b') \<noteq> (a', b'')"
    then have "a div 3 = a' div 3 \<and> b' div 3 = b'' div 3" "a \<noteq> a' \<or> b' \<noteq> b''"
      by (simp_all add: block_cells_props)
    then show "peers a b' a' b''" unfolding peers_def by blast
  qed
qed

lemma solved_full_noclash:
  assumes s: "solved B"
  shows "full_board B \<and> noclash B"
proof -
  have row: "(\<forall>x\<in>set (row_cells r). at B x \<in> {1..9}) \<and> inj_on (at B) (set (row_cells r))"
    if "r \<in> {0..8}" for r
    using s that each_digit_once_map [OF row_cells_props(2,1), of "at B" r]
    unfolding solved_def row_of_cells by blast
  have col: "inj_on (at B) (set (col_cells c))" if "c \<in> {0..8}" for c
    using s that each_digit_once_map [OF col_cells_props(2,1), of "at B" c]
    unfolding solved_def col_of_cells by blast
  have blk: "inj_on (at B) (set (block_cells br bc))" if "br \<in> {0..2}" "bc \<in> {0..2}" for br bc
    using s that each_digit_once_map [OF block_cells_props(2,1), of "at B" br bc]
    unfolding solved_def block_of_cells by blast
  have full: "full_board B"
    unfolding full_board_def
  proof (intro ballI)
    fix r c :: int assume rc: "r \<in> {0..8}" "c \<in> {0..8}"
    then have "(r, c) \<in> set (row_cells r)" by (simp add: row_cells_props)
    then have "at B (r, c) \<in> {1..9}" using row [OF rc(1)] by blast
    then show "cell B r c \<in> {1..9}" by (simp add: at_def)
  qed
  have "noclash B"
    unfolding noclash_def
  proof (intro ballI impI)
    fix r c r' c' :: int
    assume rg: "r \<in> {0..8}" "c \<in> {0..8}" "r' \<in> {0..8}" "c' \<in> {0..8}"
      and pc: "peers r c r' c' \<and> cell B r c \<noteq> 0"
    then have p: "peers r c r' c'" by simp
    have ne: "(r, c) \<noteq> (r', c')" using p unfolding peers_def by blast
    have "at B (r, c) \<noteq> at B (r', c')"
    proof (rule peers_unit [OF p rg])
      assume "(r, c) \<in> set (row_cells r)" "(r', c') \<in> set (row_cells r)"
      then show ?thesis using row [OF rg(1)] ne by (meson inj_onD)
    next
      assume "(r, c) \<in> set (col_cells c)" "(r', c') \<in> set (col_cells c)"
      then show ?thesis using col [OF rg(2)] ne by (meson inj_onD)
    next
      assume "(r, c) \<in> set (block_cells (r div 3) (c div 3))"
        "(r', c') \<in> set (block_cells (r div 3) (c div 3))"
      then show ?thesis
        using blk [OF block_of_range [OF rg(1)] block_of_range [OF rg(2)]] ne by (meson inj_onD)
    qed
    then show "cell B r c \<noteq> cell B r' c'" by (simp add: at_def)
  qed
  then show ?thesis using full by simp
qed

section \<open>Completions and the row-major solver\<close>

lemma completion_digit:
  assumes wf: "wf_board B" and e: "empty_at B r c" and co: "completion B S"
  shows "isValid B r c (cell S r c)" "1 \<le> cell S r c" "cell S r c \<le> 9"
    "completion (put B r c (cell S r c)) S"
proof -
  have rc: "r \<in> {0..8}" "c \<in> {0..8}" and z: "cell B r c = 0"
    using e by (auto simp: empty_at_def)
  have full: "full_board S" and nc: "noclash S"
    using co solved_full_noclash unfolding completion_def by blast+
  have pres: "preserved B S" using co by (simp add: completion_def)
  have d: "cell S r c \<in> {1..9}" using full rc unfolding full_board_def by blast
  then show "1 \<le> cell S r c" "cell S r c \<le> 9" by simp_all
  show "isValid B r c (cell S r c)"
    unfolding isValid_peers [OF rc]
  proof (intro ballI impI)
    fix r' c' :: int
    assume rc': "r' \<in> {0..8}" "c' \<in> {0..8}"
      and u: "r' = r \<or> c' = c \<or> (r' div 3 = r div 3 \<and> c' div 3 = c div 3)"
    show "cell B r' c' \<noteq> cell S r c"
    proof (cases "cell B r' c' = 0")
      case True
      then show ?thesis using d by simp
    next
      case False
      then have ne: "\<not> (r' = r \<and> c' = c)" using z by auto
      have same: "cell S r' c' = cell B r' c'"
        using pres rc' False unfolding preserved_def by blast
      have "peers r c r' c'" using u ne unfolding peers_def by metis
      moreover have "cell S r c \<noteq> 0" using d by simp
      ultimately have "cell S r c \<noteq> cell S r' c'"
        using nc [unfolded noclash_def, rule_format, OF rc rc'] by blast
      then show ?thesis using same by simp
    qed
  qed
  have "preserved (put B r c (cell S r c)) S"
    unfolding preserved_def
  proof (intro ballI impI)
    fix r' c' :: int
    assume rc': "r' \<in> {0..8}" "c' \<in> {0..8}"
      and nz: "cell (put B r c (cell S r c)) r' c' \<noteq> 0"
    note cp = cell_put_in [OF wf e rc', of "cell S r c"]
    show "cell S r' c' = cell (put B r c (cell S r c)) r' c'"
    proof (cases "r' = r \<and> c' = c")
      case True
      then show ?thesis using cp by simp
    next
      case False
      then have same: "cell (put B r c (cell S r c)) r' c' = cell B r' c'" using cp by auto
      then have "cell B r' c' \<noteq> 0" using nz by simp
      then have "cell S r' c' = cell B r' c'"
        using pres rc' unfolding preserved_def by blast
      then show ?thesis using same by simp
    qed
  qed
  then show "completion (put B r c (cell S r c)) S"
    using co by (simp add: completion_def)
qed

lemma frames_wrap: "0 \<le> r \<Longrightarrow> r < 9 \<Longrightarrow> frames r 9 = Suc (frames (r + 1) 0)"
  by (simp add: frames_def nat_add_distrib)

lemma frames_step: "0 \<le> r \<Longrightarrow> r < 9 \<Longrightarrow> 0 \<le> c \<Longrightarrow> c < 9 \<Longrightarrow> frames r c = Suc (frames r (c + 1))"
  by (simp add: frames_def nat_add_distrib)

lemma solveBoard_returns:
  "wf_board B \<Longrightarrow> 0 \<le> r \<Longrightarrow> r \<le> 9 \<Longrightarrow> 0 \<le> c \<Longrightarrow> c \<le> 9 \<Longrightarrow> frames r c \<le> n \<Longrightarrow>
     \<exists>res B'. solveBoard n B r c = Some (res, B')"
  "wf_board B \<Longrightarrow> empty_at B r c \<Longrightarrow> frames r (c + 1) \<le> n \<Longrightarrow>
     \<exists>res B'. solveBoard_try n B r c k = Some (res, B')"
proof (induction n B r c and n B r c k rule: solveBoard_solveBoard_try.induct)
  case (1 B r c)
  then show ?case by (simp add: frames_def)
next
  case (2 n B r c)
  note wf = "2.prems"(1) and fuel = "2.prems"(6)
  show ?case
  proof (cases "r = 9")
    case True
    then show ?thesis by auto
  next
    case r: False
    then have r8: "0 \<le> r" "r < 9" using "2.prems" by simp_all
    show ?thesis
    proof (cases "c = 9")
      case True
      have "frames (r + 1) 0 \<le> n" using fuel frames_wrap [OF r8] True by simp
      then show ?thesis using "2.IH"(1) [OF r True wf] r8 r True by simp
    next
      case c: False
      then have c8: "0 \<le> c" "c < 9" using "2.prems" by simp_all
      have f: "frames r (c + 1) \<le> n" using fuel frames_step [OF r8 c8] by simp
      show ?thesis
      proof (cases "cell B r c \<noteq> 0")
        case True
        then show ?thesis using "2.IH"(2) [OF r c True wf] r8 c8 f r c by simp
      next
        case False
        have e: "empty_at B r c" using False r8 c8 by (simp add: empty_at_def)
        show ?thesis using "2.IH"(3) [OF r c False wf e f] r c False by simp
      qed
    qed
  qed
next
  case (3 n B r c k)
  note wf = "3.prems"(1) and e = "3.prems"(2) and fuel = "3.prems"(3)
  note unfold = solveBoard_try.simps [of n B r c k]
  have rc: "0 \<le> r" "r \<le> 9" "0 \<le> c + 1" "c + 1 \<le> 9" using e by (auto simp: empty_at_def)
  show ?case
  proof (cases "k \<le> 9")
    case False
    then show ?thesis by (auto simp: unfold)
  next
    case k9: True
    show ?thesis
    proof (cases "isValid B r c k")
      case False
      then show ?thesis using "3.IH"(3) [OF k9 False wf e fuel] k9 by (auto simp: unfold)
    next
      case v: True
      have wfp: "wf_board (put B r c k)" using wf by simp
      obtain b B1 where inner: "solveBoard n (put B r c k) r (c + 1) = Some (b, B1)"
        using "3.IH"(1) [OF k9 v wfp rc fuel] by blast
      show ?thesis
      proof (cases b)
        case True
        then show ?thesis using inner k9 v by (auto simp: unfold)
      next
        case False
        have "sb_post (put B r c k) r (c + 1) b B1"
          by (rule solveBoard_post(1) [OF wfp rc inner])
        then have B1: "B1 = put B r c k" using False by (simp add: sb_post_def)
        have restored: "put B1 r c 0 = B" unfolding B1 by (rule put_back [OF wf e])
        have "\<exists>res B'. solveBoard_try n B r c (k + 1) = Some (res, B')"
          using "3.IH"(2) [OF k9 v inner refl] False restored wf e fuel by simp
        then show ?thesis using inner k9 v False restored by (auto simp: unfold)
      qed
    qed
  qed
qed

lemma solveBoard_complete:
  "wf_board B \<Longrightarrow> 0 \<le> r \<Longrightarrow> r \<le> 9 \<Longrightarrow> 0 \<le> c \<Longrightarrow> c \<le> 9 \<Longrightarrow> frames r c \<le> n \<Longrightarrow>
     completion B S \<Longrightarrow> \<exists>B'. solveBoard n B r c = Some (True, B')"
  "wf_board B \<Longrightarrow> empty_at B r c \<Longrightarrow> frames r (c + 1) \<le> n \<Longrightarrow>
     completion B S \<Longrightarrow> k \<le> cell S r c \<Longrightarrow> \<exists>B'. solveBoard_try n B r c k = Some (True, B')"
proof (induction n B r c and n B r c k rule: solveBoard_solveBoard_try.induct)
  case (1 B r c)
  then show ?case by (simp add: frames_def)
next
  case (2 n B r c)
  note wf = "2.prems"(1) and fuel = "2.prems"(6) and co = "2.prems"(7)
  show ?case
  proof (cases "r = 9")
    case True
    then show ?thesis by auto
  next
    case r: False
    then have r8: "0 \<le> r" "r < 9" using "2.prems" by simp_all
    show ?thesis
    proof (cases "c = 9")
      case True
      have "frames (r + 1) 0 \<le> n" using fuel frames_wrap [OF r8] True by simp
      then show ?thesis using "2.IH"(1) [OF r True wf] r8 r True co by simp
    next
      case c: False
      then have c8: "0 \<le> c" "c < 9" using "2.prems" by simp_all
      have f: "frames r (c + 1) \<le> n" using fuel frames_step [OF r8 c8] by simp
      show ?thesis
      proof (cases "cell B r c \<noteq> 0")
        case True
        then show ?thesis using "2.IH"(2) [OF r c True wf] r8 c8 f r c co by simp
      next
        case False
        have e: "empty_at B r c" using False r8 c8 by (simp add: empty_at_def)
        have "1 \<le> cell S r c" by (rule completion_digit(2) [OF wf e co])
        then show ?thesis using "2.IH"(3) [OF r c False wf e f co] r c False by simp
      qed
    qed
  qed
next
  case (3 n B r c k)
  note wf = "3.prems"(1) and e = "3.prems"(2) and fuel = "3.prems"(3)
    and co = "3.prems"(4) and kS = "3.prems"(5)
  note unfold = solveBoard_try.simps [of n B r c k]
  note dig = completion_digit [OF wf e co]
  have rc: "0 \<le> r" "r \<le> 9" "0 \<le> c + 1" "c + 1 \<le> 9" using e by (auto simp: empty_at_def)
  have k9: "k \<le> 9" using kS dig(3) by simp
  show ?case
  proof (cases "isValid B r c k")
    case False
    then have "k \<noteq> cell S r c" using dig(1) by auto
    then have "k + 1 \<le> cell S r c" using kS by simp
    then show ?thesis using "3.IH"(3) [OF k9 False wf e fuel co] k9 False by (auto simp: unfold)
  next
    case v: True
    have wfp: "wf_board (put B r c k)" using wf by simp
    obtain b B1 where inner: "solveBoard n (put B r c k) r (c + 1) = Some (b, B1)"
      using solveBoard_returns(1) [OF wfp rc fuel] by blast
    show ?thesis
    proof (cases b)
      case True
      then show ?thesis using inner k9 v by (auto simp: unfold)
    next
      case False
      have "k \<noteq> cell S r c"
      proof
        assume "k = cell S r c"
        then have "completion (put B r c k) S" using dig(4) by simp
        then have "\<exists>B'. solveBoard n (put B r c k) r (c + 1) = Some (True, B')"
          using "3.IH"(1) [OF k9 v wfp rc fuel] by simp
        then show False using inner False by simp
      qed
      then have next_k: "k + 1 \<le> cell S r c" using kS by simp
      have "sb_post (put B r c k) r (c + 1) b B1"
        by (rule solveBoard_post(1) [OF wfp rc inner])
      then have B1: "B1 = put B r c k" using False by (simp add: sb_post_def)
      have restored: "put B1 r c 0 = B" unfolding B1 by (rule put_back [OF wf e])
      have "\<exists>B'. solveBoard_try n B r c (k + 1) = Some (True, B')"
        using "3.IH"(2) [OF k9 v inner refl] False restored wf e fuel co next_k by simp
      then show ?thesis using inner k9 v False restored by (auto simp: unfold)
    qed
  qed
qed

section \<open>Completions and the heuristic solver\<close>

lemma empty_cells_subset: "{(r, c). empty_at B r c} \<subseteq> {0..8} \<times> {0..8}"
  by (auto simp: empty_at_def)

lemma finite_empty_cells: "finite {(r, c). empty_at B r c}"
  by (rule finite_subset [OF empty_cells_subset]) simp

lemma empties_le_81: "empties B \<le> 81"
proof -
  have "card {(r, c). empty_at B r c} \<le> card ({0..8::int} \<times> {0..8::int})"
    by (rule card_mono [OF _ empty_cells_subset]) simp
  then show ?thesis by (simp add: empties_def)
qed

lemma isValid_nonzero:
  assumes "empty_at B r c" "isValid B r c k"
  shows "k \<noteq> 0"
proof -
  have rc: "r \<in> {0..8}" "c \<in> {0..8}" and z: "cell B r c = 0"
    using assms(1) by (auto simp: empty_at_def)
  have "cell B r c \<noteq> k" by (rule isValid_peerD [OF rc assms(2) rc]) simp
  then show ?thesis using z by simp
qed

lemma empties_put:
  assumes wf: "wf_board B" and e: "empty_at B r c" and k: "k \<noteq> 0"
  shows "Suc (empties (put B r c k)) = empties B"
proof -
  have "empty_at (put B r c k) a b \<longleftrightarrow> empty_at B a b \<and> (a, b) \<noteq> (r, c)" for a b
  proof (cases "a \<in> {0..8} \<and> b \<in> {0..8}")
    case True
    then have "cell (put B r c k) a b = (if a = r \<and> b = c then k else cell B a b)"
      using cell_put_in [OF wf e] by blast
    then show ?thesis using k by (auto simp: empty_at_def)
  next
    case False
    then show ?thesis by (auto simp: empty_at_def)
  qed
  then have "{(a, b). empty_at (put B r c k) a b} = {(a, b). empty_at B a b} - {(r, c)}"
    by auto
  moreover have "(r, c) \<in> {(a, b). empty_at B a b}" using e by simp
  ultimately show ?thesis
    unfolding empties_def using finite_empty_cells [of B]
    by (metis card.remove)
qed

lemma solveBoardEfficient_returns:
  "wf_board B \<Longrightarrow> empties B < n \<Longrightarrow> \<exists>res B'. solveBoardEfficient n B = Some (res, B')"
  "wf_board B \<Longrightarrow> empty_at B row col \<Longrightarrow> empties B \<le> n \<Longrightarrow>
     \<exists>res B'. solveBoardEfficient_try n B row col k = Some (res, B')"
proof (induction n B and n B row col k rule: solveBoardEfficient_solveBoardEfficient_try.induct)
  case (1 B)
  then show ?case by simp
next
  case (2 n B)
  note wf = "2.prems"(1) and fuel = "2.prems"(2)
  show ?case
  proof (rule findNextCell_cases [of B])
    assume "findNextCell B = (- 1, - 1, 0)"
    then show ?thesis by auto
  next
    fix r c
    assume f: "findNextCell B = (r, c, cnt B r c)" and e: "empty_at B r c"
    then have ne: "\<not> (r = - 1 \<and> c = - 1)" by (auto simp: empty_at_def)
    have "empties B \<le> n" using fuel by simp
    then show ?thesis using "2.IH" [OF f [symmetric] refl ne wf e] f ne by auto
  qed
next
  case (3 n B row col k)
  note wf = "3.prems"(1) and e = "3.prems"(2) and fuel = "3.prems"(3)
  note unfold = solveBoardEfficient_try.simps [of n B row col k]
  show ?case
  proof (cases "k \<le> 9")
    case False
    then show ?thesis by (auto simp: unfold)
  next
    case k9: True
    show ?thesis
    proof (cases "isValid B row col k")
      case False
      then show ?thesis using "3.IH"(3) [OF k9 False wf e fuel] k9 by (auto simp: unfold)
    next
      case v: True
      have wfp: "wf_board (put B row col k)" using wf by simp
      have less: "empties (put B row col k) < n"
        using empties_put [OF wf e isValid_nonzero [OF e v]] fuel by simp
      obtain b B1 where inner: "solveBoardEfficient n (put B row col k) = Some (b, B1)"
        using "3.IH"(1) [OF k9 v wfp less] by blast
      show ?thesis
      proof (cases b)
        case True
        then show ?thesis using inner k9 v by (auto simp: unfold)
      next
        case False
        have "se_post (put B row col k) b B1"
          by (rule solveBoardEfficient_post(1) [OF wfp inner])
        then have B1: "B1 = put B row col k" using False by (simp add: se_post_def)
        have restored: "put B1 row col 0 = B" unfolding B1 by (rule put_back [OF wf e])
        have "\<exists>res B'. solveBoardEfficient_try n B row col (k + 1) = Some (res, B')"
          using "3.IH"(2) [OF k9 v inner refl] False restored wf e fuel by simp
        then show ?thesis using inner k9 v False restored by (auto simp: unfold)
      qed
    qed
  qed
qed

lemma solveBoardEfficient_complete:
  "wf_board B \<Longrightarrow> empties B < n \<Longrightarrow> completion B S \<Longrightarrow>
     \<exists>B'. solveBoardEfficient n B = Some (True, B')"
  "wf_board B \<Longrightarrow> empty_at B row col \<Longrightarrow> empties B \<le> n \<Longrightarrow> completion B S \<Longrightarrow>
     k \<le> cell S row col \<Longrightarrow> \<exists>B'. solveBoardEfficient_try n B row col k = Some (True, B')"
proof (induction n B and n B row col k rule: solveBoardEfficient_solveBoardEfficient_try.induct)
  case (1 B)
  then show ?case by simp
next
  case (2 n B)
  note wf = "2.prems"(1) and fuel = "2.prems"(2) and co = "2.prems"(3)
  show ?case
  proof (rule findNextCell_cases [of B])
    assume "findNextCell B = (- 1, - 1, 0)"
    then show ?thesis by auto
  next
    fix r c
    assume f: "findNextCell B = (r, c, cnt B r c)" and e: "empty_at B r c"
    then have ne: "\<not> (r = - 1 \<and> c = - 1)" by (auto simp: empty_at_def)
    have "empties B \<le> n" using fuel by simp
    moreover have "1 \<le> cell S r c" by (rule completion_digit(2) [OF wf e co])
    ultimately show ?thesis using "2.IH" [OF f [symmetric] refl ne wf e _ co] f ne by auto
  qed
next
  case (3 n B row col k)
  note wf = "3.prems"(1) and e = "3.prems"(2) and fuel = "3.prems"(3)
    and co = "3.prems"(4) and kS = "3.prems"(5)
  note unfold = solveBoardEfficient_try.simps [of n B row col k]
  note dig = completion_digit [OF wf e co]
  have k9: "k \<le> 9" using kS dig(3) by simp
  show ?case
  proof (cases "isValid B row col k")
    case False
    then have "k \<noteq> cell S row col" using dig(1) by auto
    then have "k + 1 \<le> cell S row col" using kS by simp
    then show ?thesis
      using "3.IH"(3) [OF k9 False wf e fuel co] k9 False by (auto simp: unfold)
  next
    case v: True
    have wfp: "wf_board (put B row col k)" using wf by simp
    have less: "empties (put B row col k) < n"
      using empties_put [OF wf e isValid_nonzero [OF e v]] fuel by simp
    obtain b B1 where inner: "solveBoardEfficient n (put B row col k) = Some (b, B1)"
      using solveBoardEfficient_returns(1) [OF wfp less] by blast
    show ?thesis
    proof (cases b)
      case True
      then show ?thesis using inner k9 v by (auto simp: unfold)
    next
      case False
      have "k \<noteq> cell S row col"
      proof
        assume "k = cell S row col"
        then have "completion (put B row col k) S" using dig(4) by simp
        then have "\<exists>B'. solveBoardEfficient n (put B row col k) = Some (True, B')"
          using "3.IH"(1) [OF k9 v wfp less] by simp
        then show False using inner False by simp
      qed
      then have next_k: "k + 1 \<le> cell S row col" using kS by simp
      have "se_post (put B row col k) b B1"
        by (rule solveBoardEfficient_post(1) [OF wfp inner])
      then have B1: "B1 = put B row col k" using False by (simp add: se_post_def)
      have restored: "put B1 row col 0 = B" unfolding B1 by (rule put_back [OF wf e])
      have "\<exists>B'. solveBoardEfficient_try n B row col (k + 1) = Some (True, B')"
        using "3.IH"(2) [OF k9 v inner refl] False restored wf e fuel co next_k by simp
      then show ?thesis using inner k9 v False restored by (auto simp: unfold)
    qed
  qed
qed

section \<open>The solvers: claims\<close>

lemma filled_from_origin: "filled_from B 0 0 \<longleftrightarrow> (\<forall>r\<in>{0..8}. \<forall>c\<in>{0..8}. cell B r c \<noteq> 0)"
  unfolding filled_from_def before_def by auto

lemma full_boardI:
  assumes "cells_in_range B" "\<forall>r\<in>{0..8}. \<forall>c\<in>{0..8}. cell B r c \<noteq> 0"
  shows "full_board B"
  unfolding full_board_def
proof (intro ballI)
  fix r c :: int assume rc: "r \<in> {0..8}" "c \<in> {0..8}"
  then have "cell B r c \<in> {0..9}" "cell B r c \<noteq> 0"
    using assms unfolding cells_in_range_def by blast+
  then show "cell B r c \<in> {1..9}" by simp
qed

lemma ext_full_solved:
  assumes "cells_in_range B" "noclash B" "ext B B'" "\<forall>r\<in>{0..8}. \<forall>c\<in>{0..8}. cell B' r c \<noteq> 0"
  shows "solved B' \<and> preserved B B' \<and> wf_board B'"
proof -
  have "cells_in_range B'" "noclash B'" "preserved B B'" "wf_board B'"
    using assms(1-3) by (simp_all add: ext_def)
  then show ?thesis
    using noclash_full_solved [OF _ full_boardI [OF _ assms(4)]] by blast
qed

lemma solveBoard_sound:
  assumes "wf_board B" "cells_in_range B" "noclash B" "solveBoard n B 0 0 = Some (True, B')"
  shows "solved B' \<and> preserved B B' \<and> wf_board B'"
proof -
  have "sb_post B 0 0 True B'" by (rule solveBoard_post(1) [OF assms(1) _ _ _ _ assms(4)]) simp_all
  then show ?thesis
    using ext_full_solved [OF assms(2,3)] by (simp add: sb_post_def filled_from_origin)
qed

lemma solveBoardEfficient_sound:
  assumes "wf_board B" "cells_in_range B" "noclash B" "solveBoardEfficient n B = Some (True, B')"
  shows "solved B' \<and> preserved B B' \<and> wf_board B'"
proof -
  have "se_post B True B'" by (rule solveBoardEfficient_post(1) [OF assms(1,4)])
  then show ?thesis
    using ext_full_solved [OF assms(2,3)] by (simp add: se_post_def)
qed

text \<open>
  Claim C1, as the specification has it: whenever a solver returns true on a 9x9 board
  with cells in \<open>0 .. 9\<close>, the board it leaves is solved. Neither solver looks at the
  cells that are already filled: on a full board with two 3s in its first row both
  return true at once and leave the board as it is.
\<close>

theorem solvers_accept_clash_counterexample:
  "wf_board board_clash \<and> cells_in_range board_clash
   \<and> solveBoard 91 board_clash 0 0 = Some (True, board_clash)
   \<and> solveBoardEfficient 1 board_clash = Some (True, board_clash)
   \<and> \<not> solved board_clash"
  by code_simp

text \<open>
  Claim C1, amended. For every 9x9 board with cells in \<open>0 .. 9\<close> whose filled cells
  repeat no digit within a row, a column or a 3x3 block: if \<open>solveBoard\<close> from
  \<open>(0, 0)\<close> or \<open>solveBoardEfficient\<close> returns true, then in the board it leaves
  every row, every column and every 3x3 block holds each digit \<open>1 .. 9\<close> exactly once,
  and every cell that was filled in the input holds its original value.
\<close>

theorem solvers_sound:
  assumes "wf_board B" "cells_in_range B" "conflict_free B"
  shows "(solveBoard n B 0 0 = Some (True, B') \<longrightarrow> solved B' \<and> preserved B B')
       \<and> (solveBoardEfficient n B = Some (True, B') \<longrightarrow> solved B' \<and> preserved B B')"
  using solveBoard_sound [OF assms(1,2) conflict_free_noclash [OF assms(3)]]
    solveBoardEfficient_sound [OF assms(1,2) conflict_free_noclash [OF assms(3)]]
  by blast

theorem solvers_sound_witness:
  "wf_board board_first_empty \<and> cells_in_range board_first_empty
   \<and> conflict_free board_first_empty
   \<and> solveBoard 91 board_first_empty 0 0 = Some (True, board_solved)
   \<and> solveBoardEfficient 2 board_first_empty = Some (True, board_solved)
   \<and> solved board_solved \<and> preserved board_first_empty board_solved"
proof -
  have wf: "wf_board board_first_empty" by code_simp
  have rg: "cells_in_range board_first_empty" by code_simp
  have cf: "conflict_free board_first_empty" by code_simp
  have run: "solveBoard 91 board_first_empty 0 0 = Some (True, board_solved)" by code_simp
  have run2: "solveBoardEfficient 2 board_first_empty = Some (True, board_solved)" by code_simp
  show ?thesis
    using wf rg cf run run2 solvers_sound [OF wf rg cf, of 91 board_solved] by blast
qed

text \<open>
  Claim C2. On a 9x9 board, if \<open>solveBoard\<close> from \<open>(0, 0)\<close> or
  \<open>solveBoardEfficient\<close> returns false, the board it leaves is the input board: every
  cell the solver wrote is 0 again.
\<close>

theorem failure_restores_board:
  assumes "wf_board B"
  shows "(solveBoard n B 0 0 = Some (False, B') \<longrightarrow> B' = B)
       \<and> (solveBoardEfficient m B = Some (False, B') \<longrightarrow> B' = B)"
proof (intro conjI impI)
  assume "solveBoard n B 0 0 = Some (False, B')"
  then have "sb_post B 0 0 False B'"
    using solveBoard_post(1) [OF assms, of 0 0 n False B'] by simp
  then show "B' = B" by (simp add: sb_post_def)
next
  assume "solveBoardEfficient m B = Some (False, B')"
  then have "se_post B False B'" by (rule solveBoardEfficient_post(1) [OF assms])
  then show "B' = B" by (simp add: se_post_def)
qed

theorem failure_restores_board_witness:
  "wf_board board_backtrack
   \<and> solveBoard 91 board_backtrack 0 0 = Some (False, board_backtrack)
   \<and> solveBoardEfficient 82 board_backtrack = Some (False, board_backtrack)"
proof -
  have wf: "wf_board board_backtrack" by code_simp
  have "map_option fst (solveBoard 91 board_backtrack 0 0) = Some False"
    "map_option fst (solveBoardEfficient 82 board_backtrack) = Some False"
    by code_simp+
  then obtain B1 B2 where r: "solveBoard 91 board_backtrack 0 0 = Some (False, B1)"
    "solveBoardEfficient 82 board_backtrack = Some (False, B2)" by force
  have "B1 = board_backtrack" using failure_restores_board [OF wf, of 91 B1 82] r(1) by blast
  moreover have "B2 = board_backtrack"
    using failure_restores_board [OF wf, of 91 B2 82] r(2) by blast
  ultimately show ?thesis using wf r by simp
qed

section \<open>Completeness of the solvers\<close>

lemma completion_givens:
  assumes "completion B S"
  shows "cells_in_range B" "noclash B"
proof -
  have full: "full_board S" and nc: "noclash S"
    using assms solved_full_noclash unfolding completion_def by blast+
  have pres: "preserved B S" using assms by (simp add: completion_def)
  have same: "cell S r c = cell B r c" if "r \<in> {0..8}" "c \<in> {0..8}" "cell B r c \<noteq> 0" for r c
    using pres that unfolding preserved_def by blast
  show "cells_in_range B"
    unfolding cells_in_range_def
  proof (intro ballI)
    fix r c :: int assume rc: "r \<in> {0..8}" "c \<in> {0..8}"
    show "cell B r c \<in> {0..9}"
    proof (cases "cell B r c = 0")
      case True
      then show ?thesis by simp
    next
      case False
      have "cell S r c \<in> {1..9}" using full rc unfolding full_board_def by blast
      then show ?thesis using same [OF rc False] by simp
    qed
  qed
  show "noclash B"
    unfolding noclash_def
  proof (intro ballI impI)
    fix r c r' c' :: int
    assume rg: "r \<in> {0..8}" "c \<in> {0..8}" "r' \<in> {0..8}" "c' \<in> {0..8}"
      and pc: "peers r c r' c' \<and> cell B r c \<noteq> 0"
    then have nz: "cell B r c \<noteq> 0" and p: "peers r c r' c'" by simp_all
    show "cell B r c \<noteq> cell B r' c'"
    proof (cases "cell B r' c' = 0")
      case True
      then show ?thesis using nz by simp
    next
      case False
      have "cell S r c \<noteq> 0" using same [OF rg(1,2) nz] nz by simp
      then have "cell S r c \<noteq> cell S r' c'"
        using nc [unfolded noclash_def, rule_format, OF rg] p by blast
      then show ?thesis using same [OF rg(1,2) nz] same [OF rg(3,4) False] by simp
    qed
  qed
qed

lemma completion_unique_one_empty:
  assumes only: "only_empty_cell B r0 c0" and S: "completion B S" and S': "completion B S'"
  shows "S' = S"
proof (rule board_eqI)
  show "wf_board S'" "wf_board S" using S S' by (simp_all add: completion_def)
next
  fix r c :: int
  assume "0 \<le> r" "r < 9" "0 \<le> c" "c < 9"
  then have rc: "r \<in> {0..8}" "c \<in> {0..8}" by simp_all
  have rc0: "r0 \<in> {0..8}" "c0 \<in> {0..8}" using only by (simp_all add: only_empty_cell_def)
  have given: "cell S a b = cell B a b \<and> cell S' a b = cell B a b"
    if "a \<in> {0..8}" "b \<in> {0..8}" "cell B a b \<noteq> 0" for a b
    using S S' that unfolding completion_def preserved_def by blast
  have filled: "cell B a b \<noteq> 0" if "a \<in> {0..8}" "b \<in> {0..8}" "\<not> (a = r0 \<and> b = c0)" for a b
    using only_empty_cellD [OF only that(1,2)] that(3) by blast
  have here: "cell S' r0 c0 = cell S r0 c0"
  proof -
    have full': "full_board S'" and nc': "noclash S'"
      using S' solved_full_noclash unfolding completion_def by blast+
    have d': "cell S' r0 c0 \<in> {1..9}" using full' rc0 unfolding full_board_def by blast
    have "each_digit_once (row_of S r0)" using S rc0 unfolding completion_def solved_def by blast
    then have "count_list (row_of S r0) (cell S' r0 c0) = 1"
      using d' unfolding each_digit_once_def by blast
    then have "cell S' r0 c0 \<in> set (row_of S r0)" by (metis count_list_0_iff zero_neq_one)
    then obtain b where b: "b \<in> {0..8}" "cell S r0 b = cell S' r0 c0"
      unfolding row_of_def by auto
    show ?thesis
    proof (cases "b = c0")
      case True
      then show ?thesis using b by simp
    next
      case False
      then have "cell B r0 b \<noteq> 0" using filled [OF rc0(1) b(1)] by simp
      then have "cell S' r0 b = cell S r0 b" using given [OF rc0(1) b(1)] by simp
      then have eq: "cell S' r0 c0 = cell S' r0 b" using b by simp
      have "peers r0 c0 r0 b" using False unfolding peers_def by simp
      moreover have "cell S' r0 c0 \<noteq> 0" using d' by simp
      ultimately have "cell S' r0 c0 \<noteq> cell S' r0 b"
        using nc' [unfolded noclash_def, rule_format, OF rc0 rc0(1) b(1)] by blast
      then show ?thesis using eq by simp
    qed
  qed
  show "cell S' r c = cell S r c"
  proof (cases "r = r0 \<and> c = c0")
    case True
    then show ?thesis using here by simp
  next
    case False
    then show ?thesis using given [OF rc filled [OF rc False]] by simp
  qed
qed

lemma solvers_find_completion:
  assumes wf: "wf_board B" and co: "completion B S" and n: "91 \<le> n" and m: "82 \<le> m"
  shows "\<exists>B1 B2. solveBoard n B 0 0 = Some (True, B1)
            \<and> solveBoardEfficient m B = Some (True, B2)
            \<and> completion B B1 \<and> completion B B2
            \<and> (only_completion B S \<longrightarrow> B1 = S \<and> B2 = S)"
proof -
  note giv = completion_givens [OF co]
  have "frames 0 0 \<le> n" using n by (simp add: frames_def)
  then obtain B1 where r1: "solveBoard n B 0 0 = Some (True, B1)"
    using solveBoard_complete(1) [OF wf _ _ _ _ _ co, of 0 0 n] by auto
  have "empties B < m" using empties_le_81 [of B] m by simp
  then obtain B2 where r2: "solveBoardEfficient m B = Some (True, B2)"
    using solveBoardEfficient_complete(1) [OF wf _ co] by blast
  have c1: "completion B B1"
    using solveBoard_sound [OF wf giv r1] by (simp add: completion_def)
  have c2: "completion B B2"
    using solveBoardEfficient_sound [OF wf giv r2] by (simp add: completion_def)
  have "B1 = S \<and> B2 = S" if "only_completion B S"
    using that c1 c2 unfolding only_completion_def by blast
  then show ?thesis using r1 r2 c1 c2 by blast
qed

lemma first_empty_completion: "completion board_first_empty board_solved"
proof -
  have wf: "wf_board board_first_empty" by code_simp
  have rg: "cells_in_range board_first_empty" by code_simp
  have cf: "conflict_free board_first_empty" by code_simp
  have run: "solveBoard 91 board_first_empty 0 0 = Some (True, board_solved)" by code_simp
  show ?thesis
    using solveBoard_sound [OF wf rg conflict_free_noclash [OF cf] run]
    by (simp add: completion_def)
qed

text \<open>
  Claim C4. For every 9x9 board that has a valid completion, \<open>solveBoard\<close> from
  \<open>(0, 0)\<close> and \<open>solveBoardEfficient\<close> both return true and each leaves a valid
  completion of the board; when the board has exactly one valid completion, both leave
  that one. (The call stack needs room for 91 and for 82 nested invocations.)
\<close>

theorem solvers_complete:
  assumes "wf_board B" "completion B S" "91 \<le> n" "82 \<le> m"
  shows "\<exists>B1 B2. solveBoard n B 0 0 = Some (True, B1)
            \<and> solveBoardEfficient m B = Some (True, B2)
            \<and> completion B B1 \<and> completion B B2
            \<and> (only_completion B S \<longrightarrow> B1 = S \<and> B2 = S)"
  using assms by (rule solvers_find_completion)

theorem solvers_complete_witness:
  "wf_board board_first_empty \<and> only_completion board_first_empty board_solved
   \<and> solveBoard 91 board_first_empty 0 0 = Some (True, board_solved)
   \<and> solveBoardEfficient 82 board_first_empty = Some (True, board_solved)"
proof -
  have wf: "wf_board board_first_empty" by code_simp
  note co = first_empty_completion
  have only: "only_empty_cell board_first_empty 0 0" by code_simp
  have uniq: "only_completion board_first_empty board_solved"
    unfolding only_completion_def
    using co completion_unique_one_empty [OF only co] by blast
  have n: "(91::nat) \<le> 91" and m: "(82::nat) \<le> 82" by simp_all
  show ?thesis
    using wf uniq solvers_complete [OF wf co n m] by blast
qed

section \<open>Room on the call stack\<close>

text \<open>
  The room for nested invocations only decides whether a run gets to its end: a run that
  returns with room \<open>n\<close> returns the same with any larger room. And a run of
  \<open>solveBoard\<close> that returns true has been through every cell and every row end
  ahead of its cursor.
\<close>

lemma solveBoard_more_room:
  "solveBoard n B r c = Some x \<Longrightarrow> n \<le> m \<Longrightarrow> solveBoard m B r c = Some x"
  "solveBoard_try n B r c k = Some x \<Longrightarrow> n \<le> m \<Longrightarrow> solveBoard_try m B r c k = Some x"
proof (induction n B r c and n B r c k arbitrary: m x and m x
    rule: solveBoard_solveBoard_try.induct)
  case (1 B r c)
  then show ?case by simp
next
  case (2 n B r c)
  from "2.prems"(2) obtain m' where m: "m = Suc m'" "n \<le> m'" by (cases m) auto
  note run = "2.prems"(1)
  show ?case
  proof (cases "r = 9")
    case True
    then show ?thesis using run m by simp
  next
    case r: False
    show ?thesis
    proof (cases "c = 9")
      case True
      then show ?thesis using "2.IH"(1) [OF r True _ m(2)] run r m by simp
    next
      case c: False
      show ?thesis
      proof (cases "cell B r c \<noteq> 0")
        case True
        then show ?thesis using "2.IH"(2) [OF r c True _ m(2)] run r c m by simp
      next
        case False
        then show ?thesis using "2.IH"(3) [OF r c False _ m(2)] run r c m by simp
      qed
    qed
  qed
next
  case (3 n B r c k)
  note run = "3.prems"(1) and nm = "3.prems"(2)
  note unfold_n = solveBoard_try.simps [of n B r c k]
  note unfold_m = solveBoard_try.simps [of m B r c k]
  show ?case
  proof (cases "k \<le> 9")
    case False
    then show ?thesis using run by (simp add: unfold_n unfold_m)
  next
    case k9: True
    show ?thesis
    proof (cases "isValid B r c k")
      case False
      then show ?thesis
        using "3.IH"(3) [OF k9 False _ nm] run k9 by (simp add: unfold_n unfold_m)
    next
      case v: True
      show ?thesis
      proof (cases "solveBoard n (put B r c k) r (c + 1)")
        case None
        then show ?thesis using run k9 v by (simp add: unfold_n)
      next
        case (Some x2)
        obtain b B1 where x2: "x2 = (b, B1)" by (cases x2) auto
        have inner: "solveBoard m (put B r c k) r (c + 1) = Some (b, B1)"
          using "3.IH"(1) [OF k9 v _ nm] Some x2 by simp
        show ?thesis
        proof (cases b)
          case True
          have "x = (True, B1)" using run k9 v Some x2 True by (simp add: unfold_n)
          then show ?thesis using k9 v inner True by (simp add: unfold_m)
        next
          case False
          have "solveBoard_try n (put B1 r c 0) r c (k + 1) = Some x"
            using run k9 v Some x2 False by (simp add: unfold_n)
          then have "solveBoard_try m (put B1 r c 0) r c (k + 1) = Some x"
            using "3.IH"(2) [OF k9 v Some _ _ _ nm, of b B1] x2 False by simp
          then show ?thesis using k9 v inner False by (simp add: unfold_m)
        qed
      qed
    qed
  qed
qed

lemma solveBoardEfficient_more_room:
  "solveBoardEfficient n B = Some x \<Longrightarrow> n \<le> m \<Longrightarrow> solveBoardEfficient m B = Some x"
  "solveBoardEfficient_try n B row col k = Some x \<Longrightarrow> n \<le> m \<Longrightarrow>
     solveBoardEfficient_try m B row col k = Some x"
proof (induction n B and n B row col k arbitrary: m x and m x
    rule: solveBoardEfficient_solveBoardEfficient_try.induct)
  case (1 B)
  then show ?case by simp
next
  case (2 n B)
  from "2.prems"(2) obtain m' where m: "m = Suc m'" "n \<le> m'" by (cases m) auto
  note run = "2.prems"(1)
  obtain row col opts where f: "findNextCell B = (row, col, opts)"
    by (cases "findNextCell B") auto
  show ?case
  proof (cases "row = - 1 \<and> col = - 1")
    case True
    then show ?thesis using run f m by simp
  next
    case False
    have "solveBoardEfficient_try n B row col 1 = Some x" using run f False by auto
    then have "solveBoardEfficient_try m' B row col 1 = Some x"
      by (rule "2.IH" [OF f [symmetric] refl False _ m(2)])
    then show ?thesis using f False m by auto
  qed
next
  case (3 n B row col k)
  note run = "3.prems"(1) and nm = "3.prems"(2)
  note unfold_n = solveBoardEfficient_try.simps [of n B row col k]
  note unfold_m = solveBoardEfficient_try.simps [of m B row col k]
  show ?case
  proof (cases "k \<le> 9")
    case False
    then show ?thesis using run by (simp add: unfold_n unfold_m)
  next
    case k9: True
    show ?thesis
    proof (cases "isValid B row col k")
      case False
      then show ?thesis
        using "3.IH"(3) [OF k9 False _ nm] run k9 by (simp add: unfold_n unfold_m)
    next
      case v: True
      show ?thesis
      proof (cases "solveBoardEfficient n (put B row col k)")
        case None
        then show ?thesis using run k9 v by (simp add: unfold_n)
      next
        case (Some x2)
        obtain b B1 where x2: "x2 = (b, B1)" by (cases x2) auto
        have inner: "solveBoardEfficient m (put B row col k) = Some (b, B1)"
          using "3.IH"(1) [OF k9 v _ nm] Some x2 by simp
        show ?thesis
        proof (cases b)
          case True
          have "x = (True, B1)" using run k9 v Some x2 True by (simp add: unfold_n)
          then show ?thesis using k9 v inner True by (simp add: unfold_m)
        next
          case False
          have "solveBoardEfficient_try n (put B1 row col 0) row col (k + 1) = Some x"
            using run k9 v Some x2 False by (simp add: unfold_n)
          then have "solveBoardEfficient_try m (put B1 row col 0) row col (k + 1) = Some x"
            using "3.IH"(2) [OF k9 v Some _ _ _ nm, of b B1] x2 False by simp
          then show ?thesis using k9 v inner False by (simp add: unfold_m)
        qed
      qed
    qed
  qed
qed

lemma solveBoard_success_depth:
  "solveBoard n B r c = Some (True, B') \<Longrightarrow> 0 \<le> r \<Longrightarrow> r \<le> 9 \<Longrightarrow> 0 \<le> c \<Longrightarrow> c \<le> 9 \<Longrightarrow>
     frames r c \<le> n"
  "solveBoard_try n B r c k = Some (True, B') \<Longrightarrow> 0 \<le> r \<Longrightarrow> r < 9 \<Longrightarrow> 0 \<le> c \<Longrightarrow> c < 9 \<Longrightarrow>
     frames r (c + 1) \<le> n"
proof (induction n B r c and n B r c k arbitrary: B' and B'
    rule: solveBoard_solveBoard_try.induct)
  case (1 B r c)
  then show ?case by simp
next
  case (2 n B r c)
  note run = "2.prems"(1)
  show ?case
  proof (cases "r = 9")
    case True
    then show ?thesis using "2.prems" by (simp add: frames_def)
  next
    case r: False
    then have r8: "0 \<le> r" "r < 9" using "2.prems" by simp_all
    show ?thesis
    proof (cases "c = 9")
      case True
      have "solveBoard n B (r + 1) 0 = Some (True, B')" using run r True by simp
      then have "frames (r + 1) 0 \<le> n" using "2.IH"(1) [OF r True] r8 by simp
      then show ?thesis using frames_wrap [OF r8] True by simp
    next
      case c: False
      then have c8: "0 \<le> c" "c < 9" using "2.prems" by simp_all
      have "frames r (c + 1) \<le> n"
      proof (cases "cell B r c \<noteq> 0")
        case True
        have "solveBoard n B r (c + 1) = Some (True, B')" using run r c True by simp
        then show ?thesis using "2.IH"(2) [OF r c True] r8 c8 by simp
      next
        case False
        have "solveBoard_try n B r c 1 = Some (True, B')" using run r c False by simp
        then show ?thesis using "2.IH"(3) [OF r c False] r8 c8 by simp
      qed
      then show ?thesis using frames_step [OF r8 c8] by simp
    qed
  qed
next
  case (3 n B r c k)
  note run = "3.prems"(1)
  note unfold = solveBoard_try.simps [of n B r c k]
  have rc: "0 \<le> r" "r \<le> 9" "0 \<le> c + 1" "c + 1 \<le> 9" using "3.prems" by simp_all
  show ?case
  proof (cases "k \<le> 9")
    case False
    then show ?thesis using run by (simp add: unfold)
  next
    case k9: True
    show ?thesis
    proof (cases "isValid B r c k")
      case False
      have "solveBoard_try n B r c (k + 1) = Some (True, B')"
        using run k9 False by (simp add: unfold)
      then show ?thesis using "3.IH"(3) [OF k9 False] "3.prems" by simp
    next
      case v: True
      show ?thesis
      proof (cases "solveBoard n (put B r c k) r (c + 1)")
        case None
        then show ?thesis using run k9 v by (simp add: unfold)
      next
        case (Some x2)
        obtain b B1 where x2: "x2 = (b, B1)" by (cases x2) auto
        show ?thesis
        proof (cases b)
          case True
          then show ?thesis using "3.IH"(1) [OF k9 v _ rc, of B1] Some x2 by simp
        next
          case False
          have "solveBoard_try n (put B1 r c 0) r c (k + 1) = Some (True, B')"
            using run k9 v Some x2 False by (simp add: unfold)
          then show ?thesis
            using "3.IH"(2) [OF k9 v Some, of b B1] x2 False "3.prems" by simp
        qed
      qed
    qed
  qed
qed

section \<open>Recursion depth and the forced cell\<close>

text \<open>
  Claim C9, as the specification has it: the recursion of the row-major solver is at
  most 81 deep. \<open>solveBoard\<close> calls itself for every cell, filled or not, and for
  every end of a row, so on the solved board it needs 91 nested invocations: with room
  for 82 (the first one and 81 below it) it does not get to the end.
\<close>

theorem solveBoard_depth_counterexample:
  "wf_board board_solved \<and> solveBoard 82 board_solved 0 0 = None
   \<and> solveBoard 90 board_solved 0 0 = None
   \<and> solveBoard 91 board_solved 0 0 = Some (True, board_solved)"
  by code_simp

text \<open>
  Claim C9, amended. On every 9x9 board \<open>solveBoard\<close> from \<open>(0, 0)\<close> and
  \<open>solveBoardEfficient\<close> return. The row-major solver needs at most 91 nested
  invocations (a recursion 90 deep: one call for each of the 81 cells, one for each of
  the 9 row ends), and needs them all whenever it returns true. The heuristic solver
  needs at most one invocation more than the board has empty cells, so at most 82 (a
  recursion 81 deep).
\<close>

theorem solvers_return:
  assumes "wf_board B"
  shows "(\<forall>n. 91 \<le> n \<longrightarrow> (\<exists>res B'. solveBoard n B 0 0 = Some (res, B')))
       \<and> (\<forall>m. empties B < m \<longrightarrow> (\<exists>res B'. solveBoardEfficient m B = Some (res, B')))
       \<and> empties B \<le> 81
       \<and> (\<forall>m. 82 \<le> m \<longrightarrow> (\<exists>res B'. solveBoardEfficient m B = Some (res, B')))
       \<and> (\<forall>n B'. solveBoard n B 0 0 = Some (True, B') \<longrightarrow> 91 \<le> n)"
proof (intro conjI allI impI)
  fix n B' assume "solveBoard n B 0 0 = Some (True, B')"
  then have "frames 0 0 \<le> n" by (rule solveBoard_success_depth(1)) simp_all
  then show "91 \<le> n" by (simp add: frames_def)
next
  fix n :: nat assume "91 \<le> n"
  then have "frames 0 0 \<le> n" by (simp add: frames_def)
  then show "\<exists>res B'. solveBoard n B 0 0 = Some (res, B')"
    using solveBoard_returns(1) [OF assms, of 0 0 n] by simp
next
  fix m assume "empties B < m"
  then show "\<exists>res B'. solveBoardEfficient m B = Some (res, B')"
    by (rule solveBoardEfficient_returns(1) [OF assms])
next
  show "empties B \<le> 81" by (rule empties_le_81)
next
  fix m :: nat assume "82 \<le> m"
  then have "empties B < m" using empties_le_81 [of B] by simp
  then show "\<exists>res B'. solveBoardEfficient m B = Some (res, B')"
    by (rule solveBoardEfficient_returns(1) [OF assms])
qed

theorem solvers_return_witness:
  "wf_board board_backtrack
   \<and> (\<exists>res B'. solveBoard 91 board_backtrack 0 0 = Some (res, B'))
   \<and> (\<exists>res B'. solveBoardEfficient 82 board_backtrack = Some (res, B'))
   \<and> empties board_backtrack \<le> 81"
proof -
  have wf: "wf_board board_backtrack" by code_simp
  have n: "(91::nat) \<le> 91" and m: "(82::nat) \<le> 82" by simp_all
  show ?thesis
    using wf n m solvers_return [OF wf] by blast
qed

lemma upto_1_8: "[1..8::int] = [1, 2, 3, 4, 5, 6, 7, 8]"
  by code_simp

lemma forced_digit_valid:
  assumes "forced_digit B r c d" "k \<in> {1..9}"
  shows "isValid B r c k \<longleftrightarrow> k = d"
  using assms unfolding forced_digit_def isValid_iff by blast

lemma findNextCell_forced:
  assumes only: "only_empty_cell B r0 c0" and f: "forced_digit B r0 c0 7"
  shows "findNextCell B = (r0, c0, 1)"
proof -
  have e0: "empty_at B r0 c0" using only by (auto simp: empty_at_iff only_empty_cell_def)
  have v: "isValid B r0 c0 k \<longleftrightarrow> k = 7" if "k \<in> {1..9}" for k
    by (rule forced_digit_valid [OF f that])
  have "filter (isValid B r0 c0) [1..8] = [7]"
    unfolding upto_1_8 using v by simp
  then have c: "cnt B r0 c0 = 1" using cnt_filter [OF e0] by simp
  show ?thesis
  proof (rule findNextCell_cases [of B])
    assume "\<And>r c. \<not> empty_at B r c"
    then show ?thesis using e0 by blast
  next
    fix r c
    assume res: "findNextCell B = (r, c, cnt B r c)" and e: "empty_at B r c"
    have "r = r0 \<and> c = c0"
      using only_empty_cellD [OF only] e by (auto simp: empty_at_iff)
    then show ?thesis using res c by simp
  qed
qed

lemma forced_completion:
  assumes wf: "wf_board B" and rg: "cells_in_range B" and cf: "conflict_free B"
    and only: "only_empty_cell B r0 c0" and f: "forced_digit B r0 c0 7"
  shows "only_completion B (put B r0 c0 7)"
proof -
  have e0: "empty_at B r0 c0" using only by (auto simp: empty_at_iff only_empty_cell_def)
  have rc0: "r0 \<in> {0..8}" "c0 \<in> {0..8}" using only by (simp_all add: only_empty_cell_def)
  have v: "isValid B r0 c0 7" using forced_digit_valid [OF f, of 7] by simp
  have x: "ext B (put B r0 c0 7)" by (rule ext_put [OF wf e0 v]) simp_all
  have "\<forall>r\<in>{0..8}. \<forall>c\<in>{0..8}. cell (put B r0 c0 7) r c \<noteq> 0"
  proof (intro ballI)
    fix r c :: int assume rc: "r \<in> {0..8}" "c \<in> {0..8}"
    show "cell (put B r0 c0 7) r c \<noteq> 0"
    proof (cases "r = r0 \<and> c = c0")
      case True
      then show ?thesis using cell_put_in [OF wf e0 rc] by simp
    next
      case False
      then have "cell B r c \<noteq> 0" using only_empty_cellD [OF only rc] by blast
      then show ?thesis using cell_put_in [OF wf e0 rc] False by simp
    qed
  qed
  then have "solved (put B r0 c0 7) \<and> preserved B (put B r0 c0 7) \<and> wf_board (put B r0 c0 7)"
    by (rule ext_full_solved [OF rg conflict_free_noclash [OF cf] x])
  then have co: "completion B (put B r0 c0 7)" by (simp add: completion_def)
  then show ?thesis
    unfolding only_completion_def using completion_unique_one_empty [OF only co] by blast
qed

text \<open>
  Claim C10. For every 9x9 board that is filled and free of repetitions except for
  its one empty cell \<open>(0, 0)\<close>, where 7 is the only digit that occurs neither in the
  row, nor in the column, nor in the block of the cell: \<open>findNextCell\<close> returns
  \<open>(0, 0, 1)\<close>, and \<open>solve\<close>, with either strategy, writes 7 into \<open>(0, 0)\<close>
  and returns true.
\<close>

theorem solve_single_forced_cell:
  assumes "wf_board B" "cells_in_range B" "conflict_free B"
    and "only_empty_cell B 0 0" "forced_digit B 0 0 7" "91 \<le> n"
  shows "findNextCell B = (0, 0, 1)
       \<and> (\<forall>efficient. solve n B efficient = Some (True, put B 0 0 7))"
proof -
  note uniq = forced_completion [OF assms(1-5)]
  then have co: "completion B (put B 0 0 7)" by (simp add: only_completion_def)
  have m: "82 \<le> n" using assms(6) by simp
  obtain B1 B2 where "solveBoard n B 0 0 = Some (True, B1)"
    "solveBoardEfficient n B = Some (True, B2)"
    "only_completion B (put B 0 0 7) \<longrightarrow> B1 = put B 0 0 7 \<and> B2 = put B 0 0 7"
    using solvers_find_completion [OF assms(1) co assms(6) m] by blast
  then have "solve n B efficient = Some (True, put B 0 0 7)" for efficient
    using uniq by (simp add: solve_def)
  then show ?thesis using findNextCell_forced [OF assms(4,5)] by simp
qed

theorem solve_single_forced_cell_witness:
  "wf_board board_first_empty \<and> cells_in_range board_first_empty
   \<and> conflict_free board_first_empty \<and> only_empty_cell board_first_empty 0 0
   \<and> forced_digit board_first_empty 0 0 7
   \<and> findNextCell board_first_empty = (0, 0, 1)
   \<and> solve 91 board_first_empty True = Some (True, board_solved)
   \<and> solve 91 board_first_empty False = Some (True, board_solved)"
proof -
  have wf: "wf_board board_first_empty" by code_simp
  have rg: "cells_in_range board_first_empty" by code_simp
  have cf: "conflict_free board_first_empty" by code_simp
  have only: "only_empty_cell board_first_empty 0 0" by code_simp
  have f: "forced_digit board_first_empty 0 0 7" by code_simp
  have n: "(91::nat) \<le> 91" by simp
  have p: "put board_first_empty 0 0 7 = board_solved" by code_simp
  note inst = solve_single_forced_cell [OF wf rg cf only f n]
  have "solve 91 board_first_empty True = Some (True, board_solved)"
    "solve 91 board_first_empty False = Some (True, board_solved)"
    using inst p by simp_all
  then show ?thesis using wf rg cf only f inst by blast
qed

end
